theory Spec2Isabelle
  imports Main "HOL-Library.Word" "HOL-Library.Multiset"
begin

unbundle bit_operations_syntax

section \<open>Public ASN validity (fetch/asn\_delegated.go)\<close>

text \<open>
  \<^verbatim>\<open>isValidPublicASN(asn int) bool\<close>. Go's \<open>int\<close> is 64 bits wide on the supported
  platforms; the function only compares its argument with constants, so the model takes
  any integer and keeps the order of the source's tests.
\<close>

definition isValidPublicASN :: "int \<Rightarrow> bool" where
  "isValidPublicASN asn =
     (if asn = 0 then False
      else if asn \<ge> 64512 \<and> asn \<le> 65534 then False
      else if asn = 65535 then False
      else if asn \<ge> 4200000000 \<and> asn \<le> 4294967294 then False
      else if asn = 4294967295 then False
      else if asn \<ge> 1 \<and> asn \<le> 64511 then True
      else if asn \<ge> 131072 \<and> asn \<le> 4199999999 then True
      else False)"

section \<open>Addresses and prefixes (net/netip as used by the repository)\<close>

text \<open>
  A \<^verbatim>\<open>netip.Addr\<close> is a 128-bit value with a family tag. The zero \<open>Addr\<close> has
  no family; an IPv4 address is determined by its 32 bits; an IPv6 address is the pair
  \<open>hi\<close>, \<open>lo\<close> of 64-bit halves. Zones are left out: a \<^verbatim>\<open>netip.Prefix\<close> never
  carries one (\<^verbatim>\<open>PrefixFrom\<close> and \<^verbatim>\<open>ParsePrefix\<close> strip or refuse it).
\<close>

type_synonym byte = "8 word"

datatype addr = AddrZero | Addr4 "32 word" | Addr6 "64 word" "64 word"

definition Is4 :: "addr \<Rightarrow> bool" where
  "Is4 a = (case a of Addr4 _ \<Rightarrow> True | _ \<Rightarrow> False)"

definition Is6 :: "addr \<Rightarrow> bool" where
  "Is6 a = (case a of Addr6 _ _ \<Rightarrow> True | _ \<Rightarrow> False)"

definition Is4In6 :: "addr \<Rightarrow> bool" where
  "Is4In6 a = (case a of Addr6 h l \<Rightarrow> h = 0 \<and> drop_bit 32 l = 0xffff | _ \<Rightarrow> False)"

definition BitLen :: "addr \<Rightarrow> int" where
  "BitLen a = (case a of AddrZero \<Rightarrow> 0 | Addr4 _ \<Rightarrow> 32 | Addr6 _ _ \<Rightarrow> 128)"

text \<open>\<^verbatim>\<open>cmp.Compare\<close> on integers.\<close>

definition cmpCompare :: "int \<Rightarrow> int \<Rightarrow> int" where
  "cmpCompare x y = (if x < y then -1 else if x > y then 1 else 0)"

text \<open>
  \<^verbatim>\<open>Addr.Compare\<close>: the family (bit length) first, then the 128-bit value, high half
  before low half. Two IPv4 addresses have equal high halves and low halves that differ
  only in their 32 address bits.
\<close>

definition addrCompare :: "addr \<Rightarrow> addr \<Rightarrow> int" where
  "addrCompare a b =
     (let f1 = BitLen a; f2 = BitLen b in
      if f1 < f2 then -1
      else if f1 > f2 then 1
      else (case (a, b) of
              (Addr4 x, Addr4 y) \<Rightarrow> (if x < y then -1 else if x > y then 1 else 0)
            | (Addr6 h1 l1, Addr6 h2 l2) \<Rightarrow>
                (if h1 < h2 then -1 else if h1 > h2 then 1
                 else if l1 < l2 then -1 else if l1 > l2 then 1 else 0)
            | _ \<Rightarrow> 0))"

text \<open>The numeric value of an address, for stating the order the comparator induces.\<close>

definition addr_value :: "addr \<Rightarrow> nat" where
  "addr_value a =
     (case a of AddrZero \<Rightarrow> 0 | Addr4 w \<Rightarrow> unat w | Addr6 h l \<Rightarrow> unat h * 2 ^ 64 + unat l)"

subsection \<open>Byte views\<close>

text \<open>Big-endian bytes of a 32-bit and of a 64-bit value (\<^verbatim>\<open>BEPutUint32/64\<close>).\<close>

definition be_bytes32 :: "32 word \<Rightarrow> byte list" where
  "be_bytes32 w = [ucast (drop_bit 24 w), ucast (drop_bit 16 w), ucast (drop_bit 8 w), ucast w]"

definition be_bytes64 :: "64 word \<Rightarrow> byte list" where
  "be_bytes64 w = map (\<lambda>i. ucast (drop_bit (8 * (7 - i)) w)) [0..<8]"

definition be_uint32 :: "byte list \<Rightarrow> 32 word" where
  "be_uint32 bs = foldl (\<lambda>acc b. push_bit 8 acc OR ucast b) 0 bs"

definition be_uint64 :: "byte list \<Rightarrow> 64 word" where
  "be_uint64 bs = foldl (\<lambda>acc b. push_bit 8 acc OR ucast b) 0 bs"

text \<open>
  \<^verbatim>\<open>Addr.As4\<close> panics on the zero address and on an IPv6 address that is not
  IPv4-mapped; \<open>None\<close> is the panic.
\<close>

definition As4 :: "addr \<Rightarrow> byte list option" where
  "As4 a =
     (case a of
        Addr4 w \<Rightarrow> Some (be_bytes32 w)
      | Addr6 h l \<Rightarrow> (if Is4In6 a then Some (be_bytes32 (ucast l)) else None)
      | AddrZero \<Rightarrow> None)"

definition AsSlice :: "addr \<Rightarrow> byte list" where
  "AsSlice a =
     (case a of
        AddrZero \<Rightarrow> []
      | Addr4 w \<Rightarrow> be_bytes32 w
      | Addr6 h l \<Rightarrow> be_bytes64 h @ be_bytes64 l)"

text \<open>
  \<^verbatim>\<open>netip.AddrFromSlice\<close>: 4 bytes give an IPv4 address, 16 bytes an IPv6 address,
  any other length the zero address and \<open>ok = false\<close>.
\<close>

definition AddrFromSlice :: "byte list \<Rightarrow> addr \<times> bool" where
  "AddrFromSlice bs =
     (if length bs = 4 then (Addr4 (be_uint32 bs), True)
      else if length bs = 16 then (Addr6 (be_uint64 (take 8 bs)) (be_uint64 (drop 8 bs)), True)
      else (AddrZero, False))"

subsection \<open>Prefixes\<close>

text \<open>
  \<^verbatim>\<open>netip.Prefix\<close> stores the address and the prefix length plus one; 0 marks an
  invalid prefix, for which \<^verbatim>\<open>Bits()\<close> reports -1. The address of a prefix is kept
  as given: neither \<^verbatim>\<open>PrefixFrom\<close> nor \<^verbatim>\<open>ParsePrefix\<close> clears host bits.
\<close>

record netip_prefix =
  ip :: addr
  bitsPlusOne :: nat

definition Bits :: "netip_prefix \<Rightarrow> int" where
  "Bits p = int (bitsPlusOne p) - 1"

definition PrefixFrom :: "addr \<Rightarrow> int \<Rightarrow> netip_prefix" where
  "PrefixFrom a b =
     \<lparr>ip = a,
      bitsPlusOne = (if a \<noteq> AddrZero \<and> b \<ge> 0 \<and> b \<le> BitLen a then nat b + 1 else 0)\<rparr>"

text \<open>
  \<^verbatim>\<open>Prefix.Contains\<close> on IPv4 prefixes and addresses: the address agrees with the
  prefix's address on the first \<open>Bits\<close> bits. Used to state coverage; the program itself
  never calls it.
\<close>

definition Contains :: "netip_prefix \<Rightarrow> addr \<Rightarrow> bool" where
  "Contains p a =
     (case (ip p, a) of
        (Addr4 w, Addr4 x) \<Rightarrow>
          bitsPlusOne p \<noteq> 0 \<and> drop_bit (32 - nat (Bits p)) (x XOR w) = 0
      | _ \<Rightarrow> False)"

text \<open>
  A prefix is in canonical form when its address is its network address, that is, when
  all host bits are zero (\<^verbatim>\<open>p == p.Masked()\<close>).
\<close>

definition canonical4 :: "netip_prefix \<Rightarrow> bool" where
  "canonical4 p =
     (case ip p of
        Addr4 w \<Rightarrow> 0 \<le> Bits p \<and> Bits p \<le> 32 \<and> take_bit (32 - nat (Bits p)) w = 0
      | _ \<Rightarrow> False)"

section \<open>The canonical comparator (prefixCompare)\<close>

definition prefixCompare :: "netip_prefix \<Rightarrow> netip_prefix \<Rightarrow> int" where
  "prefixCompare a b =
     (let c = cmpCompare (BitLen (ip a)) (BitLen (ip b)) in
      if c \<noteq> 0 then c
      else let c = cmpCompare (Bits a) (Bits b) in
        if c \<noteq> 0 then c
        else addrCompare (ip a) (ip b))"

abbreviation prefix_le :: "netip_prefix \<Rightarrow> netip_prefix \<Rightarrow> bool" where
  "prefix_le a b \<equiv> prefixCompare a b \<le> 0"

text \<open>
  \<^verbatim>\<open>slices.SortFunc\<close> is modelled by insertion sort. The library's algorithm is an
  unstable pattern-defeating quicksort; lemma \<open>SortFunc_unique\<close> below shows that for
  this comparator every sorted arrangement of the same elements is the same list, so the
  choice of algorithm and the order in which a Go map is iterated do not show in the
  result.
\<close>

fun insert_sorted :: "('a \<Rightarrow> 'a \<Rightarrow> int) \<Rightarrow> 'a \<Rightarrow> 'a list \<Rightarrow> 'a list" where
  "insert_sorted cmp x [] = [x]"
| "insert_sorted cmp x (y # ys) =
     (if cmp x y \<le> 0 then x # y # ys else y # insert_sorted cmp x ys)"

definition SortFunc :: "('a \<Rightarrow> 'a \<Rightarrow> int) \<Rightarrow> 'a list \<Rightarrow> 'a list" where
  "SortFunc cmp xs = foldr (insert_sorted cmp) xs []"

text \<open>
  The order the specification describes: address family (bit length) first, then prefix
  length, then numeric address value. It is written from the specification's words and
  compared with \<^const>\<open>prefixCompare\<close> below.
\<close>

definition spec_prefix_less :: "netip_prefix \<Rightarrow> netip_prefix \<Rightarrow> bool" where
  "spec_prefix_less a b \<longleftrightarrow>
     BitLen (ip a) < BitLen (ip b)
     \<or> (BitLen (ip a) = BitLen (ip b)
        \<and> (Bits a < Bits b \<or> (Bits a = Bits b \<and> addr_value (ip a) < addr_value (ip b))))"

section \<open>Splitting into /24 blocks (fetch/api.go)\<close>

text \<open>
  \<^verbatim>\<open>big.Int.SetBytes\<close> reads big-endian bytes as an unbounded natural number;
  \<^verbatim>\<open>big.Int.FillBytes\<close> writes a number into a buffer of \<open>k\<close> bytes and panics when
  it does not fit.
\<close>

definition SetBytes :: "byte list \<Rightarrow> nat" where
  "SetBytes bs = foldl (\<lambda>n b. n * 256 + unat b) 0 bs"

definition FillBytes :: "nat \<Rightarrow> nat \<Rightarrow> byte list option" where
  "FillBytes n k =
     (if n < 256 ^ k then Some (map (\<lambda>i. of_nat (n div 256 ^ (k - 1 - i))) [0..<k]) else None)"

definition ipToInt :: "addr \<Rightarrow> nat" where
  "ipToInt a = SetBytes (AsSlice a)"

definition intToIP :: "nat \<Rightarrow> addr option" where
  "intToIP ipInt =
     (case FillBytes ipInt 4 of
        None \<Rightarrow> None
      | Some bytes \<Rightarrow> Some (fst (AddrFromSlice bytes)))"

text \<open>
  The loop of \<^verbatim>\<open>splitToBlocks\<close>: \<open>blocks\<close> is the preallocated slice, \<open>i\<close> the loop
  counter, \<open>baseInt\<close> the running address. \<open>None\<close> is the panic of \<open>intToIP\<close>.
\<close>

function split_loop ::
  "nat \<Rightarrow> nat \<Rightarrow> nat \<Rightarrow> netip_prefix list \<Rightarrow> netip_prefix list option" where
  "split_loop i blockCount baseInt blocks =
     (if i < blockCount then
        (case intToIP baseInt of
           None \<Rightarrow> None
         | Some a \<Rightarrow> split_loop (i + 1) blockCount (baseInt + 256) (blocks[i := PrefixFrom a 24]))
      else Some blocks)"
  by pat_completeness auto
termination
  by (relation "measure (\<lambda>(i, blockCount, baseInt, blocks). blockCount - i)") auto

definition splitToBlocks :: "netip_prefix \<Rightarrow> netip_prefix list option" where
  "splitToBlocks p =
     (if Bits p \<ge> 24 then
        (case As4 (ip p) of
           None \<Rightarrow> None
         | Some bytes \<Rightarrow>
             (let bytes = bytes[3 := 0];
                  baseAddr = fst (AddrFromSlice bytes);
                  block = PrefixFrom baseAddr 24
              in Some [block]))
      else
        (let blockCount = 2 ^ nat (24 - Bits p);
             blocks = replicate blockCount \<lparr>ip = AddrZero, bitsPlusOne = 0\<rparr>;
             baseInt = ipToInt (ip p)
         in split_loop 0 blockCount baseInt blocks))"

text \<open>
  The /24 prefix at a 32-bit address given as a number: what one round of the loop stores,
  \<^verbatim>\<open>netip.PrefixFrom(intToIP(n), 24)\<close>, when \<open>n\<close> fits 32 bits.
\<close>

definition block24 :: "nat \<Rightarrow> netip_prefix" where
  "block24 n = \<lparr>ip = Addr4 (of_nat n), bitsPlusOne = 25\<rparr>"

text \<open>
  The network (base) address of an IPv4 prefix: its address with the host bits cleared,
  as \<^verbatim>\<open>Prefix.Masked\<close> computes it.
\<close>

definition network_address :: "netip_prefix \<Rightarrow> 32 word" where
  "network_address p =
     (case ip p of
        Addr4 w \<Rightarrow> push_bit (32 - nat (Bits p)) (drop_bit (32 - nat (Bits p)) w)
      | _ \<Rightarrow> 0)"

text \<open>
  The specification of splitting, in the specification's words: \<open>bs\<close> are exactly
  \<open>2^(24 - L)\<close> distinct /24 networks, the \<open>i\<close>-th at the base address of \<open>p\<close> plus
  \<open>256 * i\<close> (consecutive and increasing), which together contain exactly the addresses
  \<open>p\<close> contains and of which no two share an address.
\<close>

definition spec_split24 :: "netip_prefix \<Rightarrow> netip_prefix list \<Rightarrow> bool" where
  "spec_split24 p bs \<longleftrightarrow>
     length bs = 2 ^ nat (24 - Bits p)
     \<and> distinct bs
     \<and> (\<forall>i < length bs. bs ! i = block24 (unat (network_address p) + 256 * i))
     \<and> (\<forall>a. (\<exists>b \<in> set bs. Contains b a) \<longleftrightarrow> Contains p a)
     \<and> (\<forall>i j a. i < j \<and> j < length bs \<longrightarrow> \<not> (Contains (bs ! i) a \<and> Contains (bs ! j) a))"

text \<open>
  \<^verbatim>\<open>convertToIPv4Blocks\<close>. The map \<open>blockSet\<close> is a duplicate-free list of its keys
  (\<^const>\<open>List.insert\<close> adds a key only when it is absent).
\<close>

fun collect_blocks :: "netip_prefix list \<Rightarrow> netip_prefix list \<Rightarrow> netip_prefix list option" where
  "collect_blocks [] blockSet = Some blockSet"
| "collect_blocks (p # ps) blockSet =
     (if \<not> Is4 (ip p) then collect_blocks ps blockSet
      else (case splitToBlocks p of
              None \<Rightarrow> None
            | Some blocks \<Rightarrow> collect_blocks ps (fold List.insert blocks blockSet)))"

definition convertToIPv4Blocks :: "netip_prefix list \<Rightarrow> netip_prefix list option" where
  "convertToIPv4Blocks prefixes =
     (if length prefixes = 0 then Some []
      else (case collect_blocks prefixes [] of
              None \<Rightarrow> None
            | Some blockSet \<Rightarrow> Some (SortFunc prefixCompare blockSet)))"

text \<open>An IPv4 prefix of length 24, and an IPv4 address whose last octet is zero.\<close>

definition v4_block :: "netip_prefix \<Rightarrow> bool" where
  "v4_block b \<longleftrightarrow> (\<exists>x. b = \<lparr>ip = Addr4 x, bitsPlusOne = 25\<rparr>)"

definition last_octet_zero :: "addr \<Rightarrow> bool" where
  "last_octet_zero a = (case a of Addr4 w \<Rightarrow> take_bit 8 w = 0 | _ \<Rightarrow> False)"

section \<open>Fetching the BGP table with retries\<close>

text \<open>One entry of the BGP table: \<^verbatim>\<open>type Prefix struct { CIDR netip.Prefix; ASN int }\<close>.\<close>

record bgp_prefix =
  CIDR :: netip_prefix
  ASN :: int

definition maxRetries :: nat where
  "maxRetries = 4"

text \<open>\<^verbatim>\<open>retryDelay = 1 * time.Second\<close>; a \<^verbatim>\<open>time.Duration\<close> counts nanoseconds.\<close>

definition retryDelay :: nat where
  "retryDelay = 1000000000"

text \<open>
  The outside world. \<^verbatim>\<open>fetchPrefixesSimple\<close> performs one HTTP request and parses
  the answer; what it returns on the \<open>k\<close>-th call made so far (counted from 0) is given
  by the network \<open>net k\<close>, either an error or the whole table. The state of the world
  records how many fetches were made and which delays were slept, in order.
\<close>

record world =
  calls :: nat
  sleeps :: "nat list"

type_synonym 'e network = "nat \<Rightarrow> 'e + bgp_prefix list"

definition fetchPrefixesSimple :: "'e network \<Rightarrow> world \<Rightarrow> ('e + bgp_prefix list) \<times> world" where
  "fetchPrefixesSimple net w = (net (calls w), w\<lparr>calls := calls w + 1\<rparr>)"

definition time_Sleep :: "nat \<Rightarrow> world \<Rightarrow> world" where
  "time_Sleep d w = w\<lparr>sleeps := sleeps w @ [d]\<rparr>"

text \<open>
  \<^verbatim>\<open>fmt.Errorf("all %d attempts failed: %w", maxRetries, lastErr)\<close>: the number of
  attempts and the wrapped last error (\<open>None\<close> is the nil error).
\<close>

datatype 'e retry_error = AllAttemptsFailed nat "'e option"

function retry_loop ::
  "'e network \<Rightarrow> nat \<Rightarrow> 'e option \<Rightarrow> world \<Rightarrow> ('e retry_error + bgp_prefix list) \<times> world" where
  "retry_loop net attempt lastErr w =
     (if attempt \<le> maxRetries then
        (case fetchPrefixesSimple net w of
           (Inr prefixes, w') \<Rightarrow> (Inr prefixes, w')
         | (Inl err, w') \<Rightarrow>
             retry_loop net (attempt + 1) (Some err)
               (if attempt < maxRetries then time_Sleep (attempt * retryDelay) w' else w'))
      else (Inl (AllAttemptsFailed maxRetries lastErr), w))"
  by pat_completeness auto
termination
  by (relation "measure (\<lambda>(net, attempt, lastErr, w). maxRetries + 1 - attempt)") auto

declare retry_loop.simps [simp del]

definition fetchWithRetrySimple :: "'e network \<Rightarrow> world \<Rightarrow> ('e retry_error + bgp_prefix list) \<times> world" where
  "fetchWithRetrySimple net w = retry_loop net 1 None w"

section \<open>Filtering by ASN and the public entry point (fetch/api.go)\<close>

text \<open>
  \<^verbatim>\<open>filterByASN\<close>: the map \<open>asnSet\<close> is membership in the list of ASNs; the two
  result slices grow by \<open>append\<close> in table order and are then sorted.
\<close>

fun filter_loop ::
  "(int \<Rightarrow> bool) \<Rightarrow> bgp_prefix list \<Rightarrow> netip_prefix list \<Rightarrow> netip_prefix list
     \<Rightarrow> netip_prefix list \<times> netip_prefix list" where
  "filter_loop asnSet [] v4 v6 = (v4, v6)"
| "filter_loop asnSet (prefix # rest) v4 v6 =
     (if \<not> asnSet (ASN prefix) then filter_loop asnSet rest v4 v6
      else if Is4 (ip (CIDR prefix)) then filter_loop asnSet rest (v4 @ [CIDR prefix]) v6
      else if Is6 (ip (CIDR prefix)) then filter_loop asnSet rest v4 (v6 @ [CIDR prefix])
      else filter_loop asnSet rest v4 v6)"

definition filterByASN :: "bgp_prefix list \<Rightarrow> int list \<Rightarrow> netip_prefix list \<times> netip_prefix list" where
  "filterByASN prefixes asns =
     (let asnSet = (\<lambda>asn. asn \<in> set asns);
          (v4, v6) = filter_loop asnSet prefixes [] []
      in (SortFunc prefixCompare v4, SortFunc prefixCompare v6))"

record PrefixSet =
  IPv4 :: "netip_prefix list"
  IPv6 :: "netip_prefix list"

text \<open>
  The errors of \<^verbatim>\<open>GetPrefixesForASNs\<close>: the wrapped fetch error, or the panic that
  \<open>convertToIPv4Blocks\<close> can raise.
\<close>

datatype 'e prefixes_error = FailedToFetchBGPData "'e retry_error" | Panicked

definition GetPrefixesForASNs ::
  "'e network \<Rightarrow> int list \<Rightarrow> world \<Rightarrow> ('e prefixes_error + PrefixSet) \<times> world" where
  "GetPrefixesForASNs net asns w =
     (if length asns = 0 then (Inr \<lparr>IPv4 = [], IPv6 = []\<rparr>, w)
      else
        (case fetchWithRetrySimple net w of
           (Inl err, w') \<Rightarrow> (Inl (FailedToFetchBGPData err), w')
         | (Inr bgpPrefixes, w') \<Rightarrow>
             (let (ipv4, ipv6) = filterByASN bgpPrefixes asns in
              case convertToIPv4Blocks ipv4 of
                None \<Rightarrow> (Inl Panicked, w')
              | Some ipv4Blocks \<Rightarrow> (Inr \<lparr>IPv4 = ipv4Blocks, IPv6 = ipv6\<rparr>, w'))))"

section \<open>Strings (package strings and strconv, as the parser uses them)\<close>

text \<open>
  Go strings are byte sequences, here \<open>string\<close>. \<^verbatim>\<open>strings.TrimSpace\<close> removes
  leading and trailing Unicode white space: the six ASCII white-space bytes and the UTF-8
  encodings of U+0085, U+00A0, U+1680, U+2000 to U+200A, U+2028, U+2029, U+202F, U+205F
  and U+3000. A white-space rune stands at the start (end) of a string exactly when one of
  these byte sequences is a prefix (suffix) of it.
\<close>

definition white_space :: "string list" where
  "white_space =
     [[CHR 0x09], [CHR 0x0A], [CHR 0x0B], [CHR 0x0C], [CHR 0x0D], [CHR 0x20],
      [CHR 0xC2, CHR 0x85], [CHR 0xC2, CHR 0xA0], [CHR 0xE1, CHR 0x9A, CHR 0x80],
      [CHR 0xE2, CHR 0x80, CHR 0x80], [CHR 0xE2, CHR 0x80, CHR 0x81],
      [CHR 0xE2, CHR 0x80, CHR 0x82], [CHR 0xE2, CHR 0x80, CHR 0x83],
      [CHR 0xE2, CHR 0x80, CHR 0x84], [CHR 0xE2, CHR 0x80, CHR 0x85],
      [CHR 0xE2, CHR 0x80, CHR 0x86], [CHR 0xE2, CHR 0x80, CHR 0x87],
      [CHR 0xE2, CHR 0x80, CHR 0x88], [CHR 0xE2, CHR 0x80, CHR 0x89],
      [CHR 0xE2, CHR 0x80, CHR 0x8A], [CHR 0xE2, CHR 0x80, CHR 0xA8],
      [CHR 0xE2, CHR 0x80, CHR 0xA9], [CHR 0xE2, CHR 0x80, CHR 0xAF],
      [CHR 0xE2, CHR 0x81, CHR 0x9F], [CHR 0xE3, CHR 0x80, CHR 0x80]]"

definition HasPrefix :: "string \<Rightarrow> string \<Rightarrow> bool" where
  "HasPrefix s prefix = (length s \<ge> length prefix \<and> take (length prefix) s = prefix)"

text \<open>The number of bytes of the first of the given sequences that starts \<open>s\<close>, or 0.\<close>

definition leading :: "string list \<Rightarrow> string \<Rightarrow> nat" where
  "leading seqs s = (case find (HasPrefix s) seqs of None \<Rightarrow> 0 | Some u \<Rightarrow> length u)"

function trim_left :: "string list \<Rightarrow> string \<Rightarrow> string" where
  "trim_left seqs s =
     (if leading seqs s = 0 \<or> s = [] then s else trim_left seqs (drop (leading seqs s) s))"
  by pat_completeness auto
termination
  by (relation "measure (\<lambda>(seqs, s). length s)") auto

declare trim_left.simps [simp del]

definition TrimSpace :: "string \<Rightarrow> string" where
  "TrimSpace s = rev (trim_left (map rev white_space) (rev (trim_left white_space s)))"

text \<open>\<^verbatim>\<open>strings.Contains\<close>: \<open>substr\<close> occurs at some position of \<open>s\<close>.\<close>

definition strings_Contains :: "string \<Rightarrow> string \<Rightarrow> bool" where
  "strings_Contains s substr = list_ex (\<lambda>i. HasPrefix (drop i s) substr) [0..<Suc (length s)]"

text \<open>\<^verbatim>\<open>strings.Split\<close> with a separator of one byte: one field more than separators.\<close>

fun Split :: "string \<Rightarrow> char \<Rightarrow> string list" where
  "Split [] sep = [[]]"
| "Split (c # cs) sep =
     (if c = sep then [] # Split cs sep
      else (case Split cs sep of [] \<Rightarrow> [[c]] | part # parts \<Rightarrow> (c # part) # parts))"

text \<open>
  \<^verbatim>\<open>strconv.Atoi\<close> on a 64-bit platform: an optional sign, then one or more decimal
  digits and nothing else; \<open>None\<close> is the syntax error or the range error of a value
  outside \<open>[-2^63, 2^63 - 1]\<close>.
\<close>

definition is_digit :: "char \<Rightarrow> bool" where
  "is_digit c = (48 \<le> (of_char c :: nat) \<and> (of_char c :: nat) \<le> 57)"

definition digits_value :: "string \<Rightarrow> nat" where
  "digits_value ds = foldl (\<lambda>n c. n * 10 + (of_char c - 48)) 0 ds"

definition Atoi :: "string \<Rightarrow> int option" where
  "Atoi s =
     (case s of
        [] \<Rightarrow> None
      | c # cs \<Rightarrow>
          (let neg = (c = CHR ''-'');
               ds = (if c = CHR ''-'' \<or> c = CHR ''+'' then cs else s)
           in if ds = [] \<or> \<not> list_all is_digit ds then None
              else (let n = int (digits_value ds) in
                    if neg then (if n \<le> 2 ^ 63 then Some (- n) else None)
                    else (if n < 2 ^ 63 then Some n else None))))"

text \<open>Addition of Go's 64-bit \<open>int\<close>: the sum wraps around in two's complement.\<close>

definition add_int64 :: "int \<Rightarrow> int \<Rightarrow> int" where
  "add_int64 x y = (x + y + 2 ^ 63) mod 2 ^ 64 - 2 ^ 63"

section \<open>Delegated files and the ASN resolver (fetch/asn\_delegated.go)\<close>

record RIR =
  Name :: string
  URL :: string

definition RIPE_NCC :: RIR where
  "RIPE_NCC = \<lparr>Name = ''RIPE NCC'', URL = ''https://ftp.ripe.net/ripe/stats/delegated-ripencc-latest''\<rparr>"

definition APNIC :: RIR where
  "APNIC = \<lparr>Name = ''APNIC'', URL = ''https://ftp.apnic.net/stats/apnic/delegated-apnic-latest''\<rparr>"

definition CountryToRIR :: "string \<Rightarrow> RIR option" where
  "CountryToRIR = map_of [(''IR'', RIPE_NCC), (''CN'', APNIC)]"

record DelegatedRecord =
  Registry :: string
  CC :: string
  Type :: string
  Start :: string
  Value :: string
  Date :: string
  Status :: string

text \<open>
  The errors of this file, \<open>'e\<close> being the errors of the transport: each constructor is
  one \<^verbatim>\<open>fmt.Errorf\<close> of the source, with what it formats or wraps.
\<close>

datatype 'e fetch_error =
    NoRIRMapping string
  | HTTPRequestFailed 'e
  | HTTPRequestStatus int
  | ErrorReadingDelegatedFile 'e
  | InvalidRecordFormat string
  | FailedToFetchDelegatedRecords string "'e fetch_error"

definition parseDelegatedRecord :: "string \<Rightarrow> 'e fetch_error + DelegatedRecord" where
  "parseDelegatedRecord line =
     (let parts = Split line (CHR ''|'') in
      if length parts < 7 then Inl (InvalidRecordFormat line)
      else Inr \<lparr>Registry = parts ! 0, CC = parts ! 1, Type = parts ! 2, Start = parts ! 3,
                Value = parts ! 4, Date = parts ! 5, Status = parts ! 6\<rparr>)"

text \<open>
  What a \<^verbatim>\<open>bufio.Scanner\<close> delivers from a reader: the lines it scanned and, once
  scanning has stopped, the error of \<^verbatim>\<open>scanner.Err()\<close> (\<open>None\<close> is no error).
\<close>

record 'e scanner =
  lines :: "string list"
  scan_err :: "'e option"

text \<open>The scanning loop of \<^verbatim>\<open>parseDelegatedFile\<close>; \<open>records\<close> grows by \<open>append\<close>.\<close>

fun parse_loop :: "string list \<Rightarrow> DelegatedRecord list \<Rightarrow> DelegatedRecord list" where
  "parse_loop [] records = records"
| "parse_loop (text # rest) records =
     (let line = TrimSpace text in
      if line = [] \<or> HasPrefix line ''#'' then parse_loop rest records
      else if strings_Contains line ''|version|'' \<or> strings_Contains line ''|summary|''
        then parse_loop rest records
      else (case (parseDelegatedRecord line :: unit fetch_error + DelegatedRecord) of
              Inl err \<Rightarrow> parse_loop rest records
            | Inr record \<Rightarrow> parse_loop rest (records @ [record])))"

definition parseDelegatedFile :: "'e scanner \<Rightarrow> 'e fetch_error + DelegatedRecord list" where
  "parseDelegatedFile reader =
     (let records = parse_loop (lines reader) [] in
      case scan_err reader of
        Some err \<Rightarrow> Inl (ErrorReadingDelegatedFile err)
      | None \<Rightarrow> Inr records)"

text \<open>
  A well-formed line, in the specification's words: not blank, not a comment, not one of
  the two header rows, and of at least 7 fields; and the record its fields make.
\<close>

definition well_formed_line :: "string \<Rightarrow> bool" where
  "well_formed_line l \<longleftrightarrow>
     l \<noteq> [] \<and> \<not> HasPrefix l ''#''
     \<and> \<not> strings_Contains l ''|version|'' \<and> \<not> strings_Contains l ''|summary|''
     \<and> 7 \<le> length (Split l (CHR ''|''))"

definition record_of_line :: "string \<Rightarrow> DelegatedRecord" where
  "record_of_line l =
     (let parts = Split l (CHR ''|'') in
      \<lparr>Registry = parts ! 0, CC = parts ! 1, Type = parts ! 2, Start = parts ! 3,
       Value = parts ! 4, Date = parts ! 5, Status = parts ! 6\<rparr>)"

text \<open>
  The transport: \<^verbatim>\<open>httpClient.Get(url)\<close> fails, or answers with a status code and a
  body.
\<close>

type_synonym 'e http = "string \<Rightarrow> 'e + int \<times> 'e scanner"

definition fetchDelegatedRecords :: "'e http \<Rightarrow> string \<Rightarrow> 'e fetch_error + DelegatedRecord list" where
  "fetchDelegatedRecords get url =
     (case get url of
        Inl err \<Rightarrow> Inl (HTTPRequestFailed err)
      | Inr (StatusCode, Body) \<Rightarrow>
          if StatusCode \<noteq> 200 then Inl (HTTPRequestStatus StatusCode)
          else parseDelegatedFile Body)"

text \<open>
  The inner loop of \<^verbatim>\<open>extractASNsForCountry\<close>, \<^verbatim>\<open>for i := 0; i < count; i++\<close>
  (\<open>cnt\<close> is the source's \<open>count\<close>).
\<close>

function range_loop :: "int \<Rightarrow> int \<Rightarrow> int \<Rightarrow> int list \<Rightarrow> int list" where
  "range_loop i cnt startASN asns =
     (if i < cnt then
        (let asn = add_int64 startASN i in
         range_loop (i + 1) cnt startASN
           (if isValidPublicASN asn then asns @ [asn] else asns))
      else asns)"
  by pat_completeness auto
termination
  by (relation "measure (\<lambda>(i, cnt, startASN, asns). nat (cnt - i))") auto

declare range_loop.simps [simp del]

fun extract_loop :: "DelegatedRecord list \<Rightarrow> string \<Rightarrow> int list \<Rightarrow> int list" where
  "extract_loop [] countryCode asns = asns"
| "extract_loop (record # rest) countryCode asns =
     (if Type record \<noteq> ''asn'' \<or> CC record \<noteq> countryCode then extract_loop rest countryCode asns
      else if Status record = ''reserved'' \<or> Status record = ''available''
        then extract_loop rest countryCode asns
      else (case Atoi (Start record) of
              None \<Rightarrow> extract_loop rest countryCode asns
            | Some startASN \<Rightarrow>
                (case Atoi (Value record) of
                   None \<Rightarrow> extract_loop rest countryCode asns
                 | Some cnt \<Rightarrow>
                     extract_loop rest countryCode (range_loop 0 cnt startASN asns))))"

definition extractASNsForCountry :: "DelegatedRecord list \<Rightarrow> string \<Rightarrow> int list" where
  "extractASNsForCountry records countryCode = extract_loop records countryCode []"

text \<open>
  \<^verbatim>\<open>FetchASNsForCountry\<close>; \<^verbatim>\<open>sort.Ints\<close> is \<^const>\<open>sort\<close> (a list of integers
  has one ascending arrangement).
\<close>

definition FetchASNsForCountry :: "'e http \<Rightarrow> string \<Rightarrow> 'e fetch_error + int list" where
  "FetchASNsForCountry get countryCode =
     (case CountryToRIR countryCode of
        None \<Rightarrow> Inl (NoRIRMapping countryCode)
      | Some rir \<Rightarrow>
          (case fetchDelegatedRecords get (URL rir) of
             Inl err \<Rightarrow> Inl (FailedToFetchDelegatedRecords (Name rir) err)
           | Inr records \<Rightarrow> Inr (sort (extractASNsForCountry records countryCode))))"

text \<open>
  A record contributes the ASN \<open>a\<close>, in the specification's words: its type is \<open>asn\<close>,
  its country code is the requested one, its status is neither \<open>reserved\<close> nor
  \<open>available\<close>, its start and count are numbers, and \<open>a\<close> lies in
  \<open>[start, start + count)\<close>.
\<close>

definition contributes :: "string \<Rightarrow> DelegatedRecord \<Rightarrow> int \<Rightarrow> bool" where
  "contributes countryCode r a \<longleftrightarrow>
     Type r = ''asn'' \<and> CC r = countryCode
     \<and> Status r \<noteq> ''reserved'' \<and> Status r \<noteq> ''available''
     \<and> (case (Atoi (Start r), Atoi (Value r)) of
          (Some start, Some cnt) \<Rightarrow> start \<le> a \<and> a < start + cnt
        | _ \<Rightarrow> False)"

text \<open>The bytes that occur in the given sequences.\<close>

definition ws_chars :: "string list \<Rightarrow> char set" where
  "ws_chars seqs = (\<Union>v\<in>set seqs. set v)"

section \<open>Theorems\<close>

subsection \<open>Byte views and big integers\<close>

lemma nat_be_bytes:
  assumes "(n::nat) < 4294967296"
  shows "((n div 16777216 mod 256 * 256 + n div 65536 mod 256) * 256 + n div 256 mod 256) * 256
           + n div 1 mod 256 = n"
proof -
  have a: "n div 16777216 mod 256 = n div 65536 div 256"
    using assms by (simp add: div_mult2_eq[symmetric])
  have c: "n div 65536 = n div 256 div 256" by (simp add: div_mult2_eq[symmetric])
  have "n div 16777216 mod 256 * 256 + n div 65536 mod 256 = n div 65536"
    by (simp only: a div_mult_mod_eq)
  moreover have "n div 65536 * 256 + n div 256 mod 256 = n div 256"
    by (simp only: c div_mult_mod_eq)
  ultimately show ?thesis
    by (simp only: div_mult_mod_eq div_by_1)
qed

lemma SetBytes4: "SetBytes [a, b, c, d] = ((unat a * 256 + unat b) * 256 + unat c) * 256 + unat d"
  by (simp add: SetBytes_def)

lemma unat_byte_of: "unat (ucast (drop_bit k (w::32 word)) :: byte) = unat w div 2 ^ k mod 256"
proof -
  have "unat (ucast (drop_bit k w) :: byte) = take_bit 8 (unat (drop_bit k w))"
    by (simp add: unsigned_ucast_eq)
  also have "\<dots> = take_bit 8 (drop_bit k (unat w))"
    by (simp only: unat_drop_bit_eq)
  finally show ?thesis
    by (simp add: take_bit_eq_mod drop_bit_eq_div)
qed

lemma ipToInt_Addr4: "ipToInt (Addr4 w) = unat w"
proof -
  have lt: "unat w < 4294967296" using unsigned_less[of w] by simp
  have p: "(2::nat) ^ 24 = 16777216" "(2::nat) ^ 16 = 65536" "(2::nat) ^ 8 = 256" "(2::nat) ^ 0 = 1"
    by simp_all
  have "ipToInt (Addr4 w) =
      SetBytes [ucast (drop_bit 24 w), ucast (drop_bit 16 w), ucast (drop_bit 8 w), ucast (drop_bit 0 w)]"
    by (simp add: ipToInt_def AsSlice_def be_bytes32_def)
  also have "\<dots> = unat w"
    unfolding SetBytes4 unat_byte_of p by (rule nat_be_bytes[OF lt])
  finally show ?thesis .
qed

lemma be_uint32_drop_bit:
  "be_uint32 [of_nat (drop_bit 24 n), of_nat (drop_bit 16 n), of_nat (drop_bit 8 n), of_nat n]
     = (of_nat n :: 32 word)"
proof (rule bit_word_eqI)
  fix k assume "k < LENGTH(32)"
  then have k: "k < 32" by simp
  consider "k < 8" | "8 \<le> k" "k < 16" | "16 \<le> k" "k < 24" | "24 \<le> k" by linarith
  then show "bit (be_uint32 [of_nat (drop_bit 24 n), of_nat (drop_bit 16 n), of_nat (drop_bit 8 n),
                  of_nat n]) k = bit (of_nat n :: 32 word) k"
    using k by cases (auto simp add: be_uint32_def bit_simps)
qed

lemma intToIP_ok: "n < 2 ^ 32 \<Longrightarrow> intToIP n = Some (Addr4 (of_nat n))"
  unfolding intToIP_def FillBytes_def AddrFromSlice_def
  using be_uint32_drop_bit[of n]
  by (simp add: upt_rec drop_bit_eq_div)

lemma intToIP_panic: "\<not> n < 2 ^ 32 \<Longrightarrow> intToIP n = None"
  unfolding intToIP_def FillBytes_def by simp

lemma length_be_bytes32: "length (be_bytes32 w) = 4"
  by (simp add: be_bytes32_def)

lemma be_uint32_align:
  "be_uint32 ((be_bytes32 w)[3 := 0]) = push_bit 8 (drop_bit 8 w)"
proof (rule bit_word_eqI)
  fix n assume "n < LENGTH(32)"
  then have n: "n < 32" by simp
  consider "n < 8" | "8 \<le> n" "n < 16" | "16 \<le> n" "n < 24" | "24 \<le> n" by linarith
  then show "bit (be_uint32 ((be_bytes32 w)[3 := 0])) n = bit (push_bit 8 (drop_bit 8 w)) n"
    using n by cases (auto simp add: be_uint32_def be_bytes32_def bit_simps)
qed

lemma PrefixFrom_Addr4_24: "PrefixFrom (Addr4 x) 24 = \<lparr>ip = Addr4 x, bitsPlusOne = 25\<rparr>"
  by (simp add: PrefixFrom_def BitLen_def)

subsection \<open>What splitToBlocks computes\<close>

lemma splitToBlocks_align:
  assumes "ip p = Addr4 w" and "Bits p \<ge> 24"
  shows "splitToBlocks p = Some [\<lparr>ip = Addr4 (push_bit 8 (drop_bit 8 w)), bitsPlusOne = 25\<rparr>]"
proof -
  have "fst (AddrFromSlice ((be_bytes32 w)[3 := 0])) = Addr4 (push_bit 8 (drop_bit 8 w))"
    by (simp add: AddrFromSlice_def length_be_bytes32 be_uint32_align)
  then show ?thesis
    using assms by (simp add: splitToBlocks_def As4_def PrefixFrom_Addr4_24 Let_def)
qed

lemma split_loop_eq:
  "length blocks = n \<Longrightarrow> i \<le> n \<Longrightarrow>
   split_loop i n b blocks =
     (if i < n \<longrightarrow> b + 256 * (n - i - 1) < 2 ^ 32
      then Some (take i blocks @ map (\<lambda>k. block24 (b + 256 * k)) [0..<n - i])
      else None)"
proof (induction i n b blocks rule: split_loop.induct)
  case (1 i n b blocks)
  show ?case
  proof (cases "i < n")
    case False
    with "1.prems" show ?thesis by (subst split_loop.simps) simp
  next
    case True
    show ?thesis
    proof (cases "b < 2 ^ 32")
      case False
      then have "intToIP b = None" by (rule intToIP_panic)
      moreover from False have "\<not> b + 256 * (n - i - 1) < 2 ^ 32" by simp
      ultimately show ?thesis using True by (subst split_loop.simps) simp
    next
      case b: True
      then have ip: "intToIP b = Some (Addr4 (of_nat b))" by (rule intToIP_ok)
      let ?blocks = "blocks[i := PrefixFrom (Addr4 (of_nat b)) 24]"
      have len: "length ?blocks = n" using "1.prems" by simp
      have le: "i + 1 \<le> n" using True by simp
      note IH = "1.IH"[OF True ip len le]
      have tk: "take (i + 1) ?blocks = take i blocks @ [block24 b]"
        using True "1.prems" by (simp add: take_Suc_conv_app_nth PrefixFrom_Addr4_24 block24_def)
      have ni: "n - i = Suc (n - (i + 1))" using True by simp
      have mp: "map (\<lambda>k. block24 (b + 256 * k)) [0..<n - i]
                = block24 b # map (\<lambda>k. block24 (b + 256 + 256 * k)) [0..<n - (i + 1)]"
        unfolding ni by (simp add: map_upt_Suc add.assoc del: upt_Suc)
      have cond: "(i + 1 < n \<longrightarrow> b + 256 + 256 * (n - (i + 1) - 1) < 2 ^ 32)
                  \<longleftrightarrow> (b + 256 * (n - i - 1) < 2 ^ 32)"
      proof (cases "i + 1 < n")
        case True
        then have "n - i - 1 = Suc (n - (i + 1) - 1)" by simp
        then show ?thesis using True by simp
      next
        case False
        with \<open>i < n\<close> have "n - i - 1 = 0" by simp
        then show ?thesis using False b by simp
      qed
      have "split_loop i n b blocks = split_loop (i + 1) n (b + 256) ?blocks"
        using True ip by (subst split_loop.simps) simp
      also note IH
      finally show ?thesis using True cond tk mp by simp
    qed
  qed
qed

lemma splitToBlocks_split:
  assumes "ip p = Addr4 w" and "Bits p < 24"
  shows "splitToBlocks p =
     (if unat w + 256 * (2 ^ nat (24 - Bits p) - 1) < 2 ^ 32
      then Some (map (\<lambda>k. block24 (unat w + 256 * k)) [0..<2 ^ nat (24 - Bits p)])
      else None)"
proof -
  let ?n = "2 ^ nat (24 - Bits p) :: nat"
  have "splitToBlocks p = split_loop 0 ?n (unat w) (replicate ?n \<lparr>ip = AddrZero, bitsPlusOne = 0\<rparr>)"
    using assms by (simp add: splitToBlocks_def ipToInt_Addr4 Let_def)
  also have "\<dots> = (if 0 < ?n \<longrightarrow> unat w + 256 * (?n - 0 - 1) < 2 ^ 32
      then Some (take 0 (replicate ?n \<lparr>ip = AddrZero, bitsPlusOne = 0\<rparr>) @ map (\<lambda>k. block24 (unat w + 256 * k)) [0..<?n - 0])
      else None)"
    by (rule split_loop_eq) simp_all
  finally show ?thesis by simp
qed

subsection \<open>The comparator\<close>

lemma cmpCompare_simps:
  "cmpCompare x y < 0 \<longleftrightarrow> x < y" "cmpCompare x y = 0 \<longleftrightarrow> x = y" "cmpCompare x y > 0 \<longleftrightarrow> x > y"
  "cmpCompare x y \<noteq> 0 \<longleftrightarrow> x \<noteq> y"
  by (auto simp: cmpCompare_def)

lemma uint128_less:
  fixes h1 l1 h2 l2 :: "64 word"
  shows "(h1 < h2 \<or> (h1 = h2 \<and> l1 < l2))
         \<longleftrightarrow> unat h1 * 2 ^ 64 + unat l1 < unat h2 * 2 ^ 64 + unat l2"
proof -
  have b1: "unat l1 < 2 ^ 64" and b2: "unat l2 < 2 ^ 64"
    using unsigned_less[of l1] unsigned_less[of l2] by simp_all
  show ?thesis
  proof (cases "h1 = h2")
    case True
    then show ?thesis by (simp add: word_less_nat_alt)
  next
    case False
    show ?thesis
    proof (cases "h1 < h2")
      case True
      then have "unat h1 + 1 \<le> unat h2" by (simp add: word_less_nat_alt)
      then have "(unat h1 + 1) * 2 ^ 64 \<le> unat h2 * 2 ^ 64" by (rule mult_le_mono1)
      then show ?thesis using True b1 by simp
    next
      case nl: False
      with False have "h2 < h1" by simp
      then have "unat h2 + 1 \<le> unat h1" by (simp add: word_less_nat_alt)
      then have "(unat h2 + 1) * 2 ^ 64 \<le> unat h1 * 2 ^ 64" by (rule mult_le_mono1)
      then show ?thesis using nl False b2 by simp
    qed
  qed
qed

lemma addr_value_inj:
  "BitLen a = BitLen b \<Longrightarrow> addr_value a = addr_value b \<Longrightarrow> a = b"
proof (cases a; cases b)
  fix h1 l1 h2 l2 assume a: "a = Addr6 h1 l1" and b: "b = Addr6 h2 l2"
    and v: "addr_value a = addr_value b"
  have "\<not> (h1 < h2 \<or> (h1 = h2 \<and> l1 < l2))" "\<not> (h2 < h1 \<or> (h2 = h1 \<and> l2 < l1))"
    using v unfolding uint128_less a b by (simp_all add: addr_value_def)
  then show "a = b" using a b by auto
qed (auto simp: BitLen_def addr_value_def word_unat_eq_iff)

lemma addrCompare_Addr6:
  "addrCompare (Addr6 h1 l1) (Addr6 h2 l2) < 0 \<longleftrightarrow> (h1 < h2 \<or> (h1 = h2 \<and> l1 < l2))"
  "addrCompare (Addr6 h1 l1) (Addr6 h2 l2) > 0 \<longleftrightarrow> (h2 < h1 \<or> (h2 = h1 \<and> l2 < l1))"
  by (auto simp: addrCompare_def BitLen_def)

lemma addrCompare_sign:
  assumes "BitLen a = BitLen b"
  shows "addrCompare a b < 0 \<longleftrightarrow> addr_value a < addr_value b"
    and "addrCompare a b > 0 \<longleftrightarrow> addr_value b < addr_value a"
    and "addrCompare a b = 0 \<longleftrightarrow> a = b"
proof -
  show "addrCompare a b < 0 \<longleftrightarrow> addr_value a < addr_value b"
  proof (cases a; cases b)
    fix h1 l1 h2 l2 assume "a = Addr6 h1 l1" "b = Addr6 h2 l2"
    then show ?thesis
      by (simp only: addrCompare_Addr6 uint128_less) (simp add: addr_value_def)
  qed (use assms in \<open>auto simp: addrCompare_def BitLen_def addr_value_def word_less_nat_alt\<close>)
  show "addrCompare a b > 0 \<longleftrightarrow> addr_value b < addr_value a"
  proof (cases a; cases b)
    fix h1 l1 h2 l2 assume "a = Addr6 h1 l1" "b = Addr6 h2 l2"
    then show ?thesis
      by (simp only: addrCompare_Addr6 uint128_less) (simp add: addr_value_def)
  qed (use assms in \<open>auto simp: addrCompare_def BitLen_def addr_value_def word_less_nat_alt\<close>)
  show "addrCompare a b = 0 \<longleftrightarrow> a = b"
    using assms
    by (cases a; cases b) (auto simp: addrCompare_def BitLen_def)
qed

lemma prefix_eqI: "ip a = ip b \<Longrightarrow> Bits a = Bits b \<Longrightarrow> (a::netip_prefix) = b"
  by (simp add: Bits_def)

lemma prefixCompare_less: "prefixCompare a b < 0 \<longleftrightarrow> spec_prefix_less a b"
  by (auto simp: prefixCompare_def spec_prefix_less_def Let_def cmpCompare_simps addrCompare_sign
      simp: cmpCompare_def)

lemma prefixCompare_greater: "prefixCompare a b > 0 \<longleftrightarrow> spec_prefix_less b a"
  by (auto simp: prefixCompare_def spec_prefix_less_def Let_def cmpCompare_simps addrCompare_sign
      simp: cmpCompare_def)

lemma prefixCompare_zero: "prefixCompare a b = 0 \<longleftrightarrow> a = b"
  by (auto simp: prefixCompare_def Let_def cmpCompare_simps addrCompare_sign
      intro: prefix_eqI)

lemma spec_prefix_less_trans:
  "spec_prefix_less a b \<Longrightarrow> spec_prefix_less b c \<Longrightarrow> spec_prefix_less a c"
  unfolding spec_prefix_less_def by auto

lemma spec_prefix_less_irrefl: "\<not> spec_prefix_less a a"
  unfolding spec_prefix_less_def by auto

lemma spec_prefix_less_asym: "spec_prefix_less a b \<Longrightarrow> \<not> spec_prefix_less b a"
  unfolding spec_prefix_less_def by auto

lemma prefixCompare_le: "prefixCompare a b \<le> 0 \<longleftrightarrow> spec_prefix_less a b \<or> a = b"
  using prefixCompare_less[of a b] prefixCompare_zero[of a b] by auto

lemma prefixCompare_trans:
  "prefixCompare a b \<le> 0 \<Longrightarrow> prefixCompare b c \<le> 0 \<Longrightarrow> prefixCompare a c \<le> 0"
  unfolding prefixCompare_le using spec_prefix_less_trans by blast

lemma prefixCompare_antisym:
  "prefixCompare a b \<le> 0 \<Longrightarrow> prefixCompare b a \<le> 0 \<Longrightarrow> a = b"
  unfolding prefixCompare_le using spec_prefix_less_asym by blast

lemma prefixCompare_refl: "prefixCompare a a = 0"
  by (simp add: prefixCompare_zero)

lemma prefixCompare_total: "prefixCompare a b \<le> 0 \<or> prefixCompare b a \<le> 0"
  using prefixCompare_greater[of a b] prefixCompare_less[of b a] by force

lemma prefixCompare_range: "prefixCompare a b \<in> {-1, 0, 1}"
  by (auto simp: prefixCompare_def Let_def cmpCompare_def addrCompare_def
      split: addr.splits)

lemma prefixCompare_neg: "prefixCompare b a = - prefixCompare a b"
proof -
  consider "prefixCompare a b < 0" | "prefixCompare a b = 0" | "prefixCompare a b > 0"
    by linarith
  then show ?thesis
  proof cases
    case 1
    then have "prefixCompare b a > 0" by (simp add: prefixCompare_less prefixCompare_greater)
    with 1 show ?thesis using prefixCompare_range[of a b] prefixCompare_range[of b a] by auto
  next
    case 2
    then have "a = b" by (simp add: prefixCompare_zero)
    with 2 show ?thesis by simp
  next
    case 3
    then have "prefixCompare b a < 0" by (simp add: prefixCompare_less prefixCompare_greater)
    with 3 show ?thesis using prefixCompare_range[of a b] prefixCompare_range[of b a] by auto
  qed
qed

lemma set_insert_sorted: "set (insert_sorted cmp x xs) = insert x (set xs)"
  by (induction xs) auto

lemma mset_insert_sorted: "mset (insert_sorted cmp x xs) = add_mset x (mset xs)"
  by (induction xs) auto

lemma SortFunc_Cons: "SortFunc cmp (x # xs) = insert_sorted cmp x (SortFunc cmp xs)"
  by (simp add: SortFunc_def)

lemma SortFunc_Nil: "SortFunc cmp [] = []"
  by (simp add: SortFunc_def)

lemma mset_SortFunc: "mset (SortFunc cmp xs) = mset xs"
  by (induction xs) (simp_all add: SortFunc_Nil SortFunc_Cons mset_insert_sorted)

lemma set_SortFunc: "set (SortFunc cmp xs) = set xs"
  using mset_SortFunc[of cmp xs] by (metis set_mset_mset)

lemma distinct_SortFunc: "distinct (SortFunc cmp xs) = distinct xs"
  using mset_SortFunc[of cmp xs] by (rule mset_eq_imp_distinct_iff)

subsection \<open>Sorting with the comparator\<close>

lemma sorted_insert_sorted:
  "sorted_wrt prefix_le xs \<Longrightarrow> sorted_wrt prefix_le (insert_sorted prefixCompare x xs)"
proof (induction xs)
  case Nil
  then show ?case by simp
next
  case (Cons y ys)
  show ?case
  proof (cases "prefixCompare x y \<le> 0")
    case True
    then have "\<forall>z\<in>set ys. prefixCompare x z \<le> 0"
      using Cons.prems prefixCompare_trans by auto
    with True Cons.prems show ?thesis by simp
  next
    case False
    then have "prefixCompare y x \<le> 0" using prefixCompare_total[of x y] by simp
    with False Cons show ?thesis by (auto simp: set_insert_sorted)
  qed
qed

lemma sorted_SortFunc: "sorted_wrt prefix_le (SortFunc prefixCompare xs)"
  by (induction xs) (simp_all add: SortFunc_Nil SortFunc_Cons sorted_insert_sorted)

lemma SortFunc_sorted_id:
  "sorted_wrt prefix_le xs \<Longrightarrow> SortFunc prefixCompare xs = xs"
proof (induction xs)
  case Nil
  then show ?case by (simp add: SortFunc_Nil)
next
  case (Cons x xs)
  then have "SortFunc prefixCompare xs = xs" by simp
  then show ?case using Cons.prems by (cases xs) (simp_all add: SortFunc_Cons)
qed

lemma sorted_prefix_unique:
  "sorted_wrt prefix_le xs \<Longrightarrow> sorted_wrt prefix_le ys \<Longrightarrow> mset xs = mset ys \<Longrightarrow> xs = ys"
proof (induction xs arbitrary: ys)
  case Nil
  then show ?case by simp
next
  case (Cons x xs)
  then obtain y ys' where ys: "ys = y # ys'" by (cases ys) auto
  have "x \<in> set ys" using Cons.prems(3) by (metis list.set_intros(1) set_mset_mset)
  then have yx: "prefixCompare y x \<le> 0"
    using Cons.prems(2) ys by (auto simp: prefixCompare_refl)
  have "y \<in> set (x # xs)" using Cons.prems(3) ys by (metis list.set_intros(1) set_mset_mset)
  then have xy: "prefixCompare x y \<le> 0"
    using Cons.prems(1) by (auto simp: prefixCompare_refl)
  from xy yx have "x = y" by (rule prefixCompare_antisym)
  with Cons ys show ?case by simp
qed

lemma SortFunc_unique:
  "mset xs = mset ys \<Longrightarrow> SortFunc prefixCompare xs = SortFunc prefixCompare ys"
  by (rule sorted_prefix_unique) (simp_all add: sorted_SortFunc mset_SortFunc)

lemma sorted_distinct_strict:
  "sorted_wrt prefix_le xs \<Longrightarrow> distinct xs \<Longrightarrow> sorted_wrt (\<lambda>a b. prefixCompare a b < 0) xs"
proof (induction xs)
  case Nil
  then show ?case by simp
next
  case (Cons x xs)
  have "\<forall>y\<in>set xs. prefixCompare x y < 0"
  proof
    fix y assume y: "y \<in> set xs"
    then have "prefixCompare x y \<le> 0" using Cons.prems(1) by simp
    moreover have "x \<noteq> y" using y Cons.prems(2) by auto
    ultimately show "prefixCompare x y < 0" using prefixCompare_zero[of x y] by simp
  qed
  with Cons show ?case by simp
qed

subsection \<open>Containment and canonical prefixes\<close>

lemma word_xor_eq_0: "(a :: 32 word) XOR b = 0 \<longleftrightarrow> a = b"
  by (auto simp: bit_eq_iff bit_xor_iff)

lemma Contains_nat:
  assumes "ip p = Addr4 w"
  shows "Contains p (Addr4 x) \<longleftrightarrow>
     bitsPlusOne p \<noteq> 0 \<and> unat x div 2 ^ (32 - nat (Bits p)) = unat w div 2 ^ (32 - nat (Bits p))"
proof -
  let ?k = "32 - nat (Bits p)"
  have "drop_bit ?k (x XOR w) = 0 \<longleftrightarrow> drop_bit ?k x = drop_bit ?k w"
    by (simp only: drop_bit_xor word_xor_eq_0)
  also have "\<dots> \<longleftrightarrow> unat (drop_bit ?k x) = unat (drop_bit ?k w)"
    by (simp only: word_unat_eq_iff)
  also have "\<dots> \<longleftrightarrow> unat x div 2 ^ ?k = unat w div 2 ^ ?k"
    by (simp only: unat_drop_bit_eq) (simp only: drop_bit_eq_div)
  finally show ?thesis using assms by (simp add: Contains_def)
qed

lemma Contains_not_v4: "\<not> Is4 a \<Longrightarrow> \<not> Contains p a"
  by (auto simp: Contains_def Is4_def split: addr.splits)

lemma Contains_block24:
  assumes "n < 2 ^ 32"
  shows "Contains (block24 n) (Addr4 x) \<longleftrightarrow> unat x div 256 = n div 256"
proof -
  have "unat (of_nat n :: 32 word) = n" using assms by (simp add: unat_of_nat)
  then show ?thesis
    using Contains_nat[of "block24 n" "of_nat n" x] by (simp add: block24_def Bits_def)
qed

text \<open>A canonical prefix: the address is a multiple of the block size and stays in range.\<close>

lemma canonical4_nat:
  assumes "ip p = Addr4 w" and "take_bit k w = 0" and "k \<le> 32"
  shows "2 ^ k dvd unat w" and "unat w + 2 ^ k \<le> 2 ^ 32"
proof -
  have "take_bit k (unat w) = 0"
    using assms(2) by (metis unsigned_take_bit_eq unsigned_0)
  then show d: "2 ^ k dvd unat w" by (simp add: take_bit_eq_0_iff)
  then obtain m where m: "unat w = 2 ^ k * m" by (auto simp: dvd_def)
  have "unat w < 2 ^ 32" using unsigned_less[of w] by simp
  then have "2 ^ k * m < 2 ^ k * 2 ^ (32 - k)"
    using m assms(3) by (simp add: power_add[symmetric])
  then have "m < 2 ^ (32 - k)" by simp
  then have "m + 1 \<le> 2 ^ (32 - k)" by simp
  then have "2 ^ k * (m + 1) \<le> 2 ^ k * 2 ^ (32 - k)" by (rule mult_le_mono2)
  then show "unat w + 2 ^ k \<le> 2 ^ 32"
    using m assms(3) by (simp add: power_add[symmetric])
qed

lemma network_address_canonical:
  assumes "ip p = Addr4 w" and "take_bit (32 - nat (Bits p)) w = 0"
  shows "network_address p = w"
proof -
  let ?k = "32 - nat (Bits p)"
  have "push_bit ?k (drop_bit ?k w) = w"
    using assms(2) bits_ident[of ?k w] by simp
  then show ?thesis using assms(1) by (simp add: network_address_def)
qed


subsection \<open>Splitting a canonical prefix\<close>

lemma block24_inj: "m < 2 ^ 32 \<Longrightarrow> n < 2 ^ 32 \<Longrightarrow> block24 m = block24 n \<longleftrightarrow> m = n"
proof
  assume m: "m < 2 ^ 32" and n: "n < 2 ^ 32" and eq: "block24 m = block24 n"
  have um: "unat (of_nat m :: 32 word) = m" and un: "unat (of_nat n :: 32 word) = n"
    using m n by (simp_all add: unat_of_nat)
  from eq have "(of_nat m :: 32 word) = of_nat n" by (simp add: block24_def)
  then have "unat (of_nat m :: 32 word) = unat (of_nat n :: 32 word)" by (rule arg_cong)
  then show "m = n" by (simp only: um un)
qed simp

lemma nat_block:
  assumes "0 < (K::nat)" and "K dvd u"
  shows "(\<exists>i<K. y = u + i) \<longleftrightarrow> y div K = u div K"
proof -
  from assms(2) obtain m where u: "u = K * m" by (auto simp: dvd_def)
  show ?thesis
  proof
    assume "\<exists>i<K. y = u + i"
    then obtain i where "i < K" "y = K * m + i" using u by auto
    then show "y div K = u div K" using u assms(1) by simp
  next
    assume "y div K = u div K"
    then have "y div K = m" using u assms(1) by simp
    then have "y = u + y mod K" using u by (metis div_mult_mod_eq mult.commute)
    moreover have "y mod K < K" using assms(1) by simp
    ultimately show "\<exists>i<K. y = u + i" by blast
  qed
qed

lemma split_blocks_spec:
  assumes ipp: "ip p = Addr4 w" and b0: "0 \<le> Bits p" and b24: "Bits p < 24"
    and tb: "take_bit (32 - nat (Bits p)) w = 0"
  shows "splitToBlocks p = Some (map (\<lambda>i. block24 (unat w + 256 * i)) [0..<2 ^ nat (24 - Bits p)])"
    and "spec_split24 p (map (\<lambda>i. block24 (unat w + 256 * i)) [0..<2 ^ nat (24 - Bits p)])"
proof -
  let ?K = "2 ^ nat (24 - Bits p) :: nat"
  let ?k = "32 - nat (Bits p)"
  let ?bs = "map (\<lambda>i. block24 (unat w + 256 * i)) [0..<?K]"
  have k: "?k = 8 + nat (24 - Bits p)" using b0 b24 by simp
  have pk: "(2::nat) ^ ?k = 256 * ?K" unfolding k by (simp add: power_add)
  have kle: "?k \<le> 32" by simp
  note cn = canonical4_nat[OF ipp tb kle]
  have Kpos: "0 < ?K" by simp
  have fit: "\<And>i. i < ?K \<Longrightarrow> unat w + 256 * i < 2 ^ 32"
  proof -
    fix i assume "i < ?K"
    then have "256 * i < 256 * ?K" by simp
    then show "unat w + 256 * i < 2 ^ 32" using cn(2) pk by simp
  qed
  have "unat w + 256 * (?K - 1) < 2 ^ 32" using fit[of "?K - 1"] Kpos by simp
  then show split: "splitToBlocks p = Some ?bs"
    using splitToBlocks_split[OF ipp b24] by simp
  have na: "network_address p = w" by (rule network_address_canonical[OF ipp tb])
  have len: "length ?bs = ?K" by simp
  have nth: "\<forall>i < length ?bs. ?bs ! i = block24 (unat (network_address p) + 256 * i)"
    by (simp add: na)
  have inj: "inj_on (\<lambda>i. block24 (unat w + 256 * i)) (set [0..<?K])"
    by (rule inj_onI) (use fit in \<open>simp add: block24_inj\<close>)
  have dist: "distinct ?bs" by (simp add: distinct_map inj del: set_upt)
  have Kdvd: "?K dvd unat w div 256"
  proof -
    from cn(1) pk obtain m where "unat w = 256 * ?K * m" by (auto simp: dvd_def)
    then have "unat w div 256 = ?K * m" by simp
    then show ?thesis by simp
  qed
  have valid: "bitsPlusOne p \<noteq> 0" using b0 by (auto simp: Bits_def)
  have in_block: "Contains (block24 (unat w + 256 * i)) (Addr4 x) \<longleftrightarrow>
        unat x div 256 = unat w div 256 + i" if "i < ?K" for i x
    using Contains_block24[OF fit[OF that], of x] by (simp add: add.commute)
  have in_p: "Contains p (Addr4 x) \<longleftrightarrow> unat x div 256 div ?K = unat w div 256 div ?K" for x
    using Contains_nat[OF ipp, of x] valid by (simp only: pk div_mult2_eq) simp
  have cover: "(\<exists>b \<in> set ?bs. Contains b a) \<longleftrightarrow> Contains p a" for a
  proof (cases a)
    case (Addr4 x)
    have "(\<exists>b \<in> set ?bs. Contains b a) \<longleftrightarrow> (\<exists>i<?K. Contains (block24 (unat w + 256 * i)) (Addr4 x))"
      using Addr4 by auto
    also have "\<dots> \<longleftrightarrow> (\<exists>i<?K. unat x div 256 = unat w div 256 + i)"
      using in_block by blast
    also have "\<dots> \<longleftrightarrow> unat x div 256 div ?K = unat w div 256 div ?K"
      by (rule nat_block[OF Kpos Kdvd])
    finally show ?thesis using in_p Addr4 by simp
  qed (simp_all add: Contains_not_v4 Is4_def)
  have disj: "\<not> (Contains (?bs ! i) a \<and> Contains (?bs ! j) a)" if "i < j" "j < length ?bs" for i j a
  proof (cases a)
    case (Addr4 x)
    from that have i: "i < ?K" and j: "j < ?K" by simp_all
    show ?thesis using that in_block[OF i, of x] in_block[OF j, of x] Addr4 i j by simp
  qed (simp_all add: Contains_not_v4 Is4_def)
  show "spec_split24 p ?bs"
    unfolding spec_split24_def using len dist nth cover disj by blast
qed

subsection \<open>Splitting a prefix whose blocks pass the end of the address space\<close>

lemma splitToBlocks_panic_example:
  "splitToBlocks \<lparr>ip = Addr4 0xFFFFFF00, bitsPlusOne = 24\<rparr> = None"
proof -
  have b: "Bits \<lparr>ip = Addr4 0xFFFFFF00, bitsPlusOne = 24\<rparr> = 23" by (simp add: Bits_def)
  show ?thesis by (simp add: splitToBlocks_split[of _ "0xFFFFFF00"] b)
qed

subsection \<open>The blocks of an IPv4 prefix\<close>

lemma unat_take_bit8: "unat (take_bit 8 (w :: 32 word)) = unat w mod 256"
proof -
  have "unat (take_bit 8 w) = take_bit 8 (unat w)" by (rule unsigned_take_bit_eq)
  also have "\<dots> = unat w mod 256" by (simp add: take_bit_eq_mod)
  finally show ?thesis .
qed

lemma take_bit8_block: "take_bit 8 (of_nat (unat w + 256 * k) :: 32 word) = take_bit 8 w"
proof -
  define m where "m = unat w + 256 * k"
  have "unat (of_nat m :: 32 word) = m mod 2 ^ 32"
    using unat_of_nat[where 'a = 32, of m] by simp
  then have "unat (take_bit 8 (of_nat m :: 32 word)) = m mod 2 ^ 32 mod 256"
    by (simp only: unat_take_bit8)
  also have "\<dots> = m mod 256"
    by (rule mod_mod_cancel) simp
  also have "\<dots> = unat w mod 256" by (simp add: m_def)
  also have "\<dots> = unat (take_bit 8 w)" by (simp only: unat_take_bit8)
  finally have "take_bit 8 (of_nat m :: 32 word) = take_bit 8 w"
    by (simp only: word_unat_eq_iff)
  then show ?thesis by (simp only: m_def)
qed

lemma Is4_Addr4: "Is4 a \<longleftrightarrow> (\<exists>w. a = Addr4 w)"
  by (cases a) (simp_all add: Is4_def)

lemma set_fold_insert: "set (fold List.insert xs S) = set xs \<union> set S"
  by (induction xs arbitrary: S) auto

lemma distinct_fold_insert: "distinct S \<Longrightarrow> distinct (fold List.insert xs S)"
  by (induction xs arbitrary: S) auto

lemma splitToBlocks_blocks:
  assumes "ip p = Addr4 w" and "splitToBlocks p = Some bs" and "b \<in> set bs"
  shows "\<exists>x. b = \<lparr>ip = Addr4 x, bitsPlusOne = 25\<rparr>
            \<and> (if Bits p \<ge> 24 then take_bit 8 x = 0 else take_bit 8 x = take_bit 8 w)"
proof (cases "Bits p \<ge> 24")
  case True
  have "take_bit 8 (push_bit 8 (drop_bit 8 w)) = 0"
    by (rule bit_word_eqI) (auto simp: bit_simps)
  with True assms splitToBlocks_align[OF assms(1) True] show ?thesis by auto
next
  case False
  then have lt: "Bits p < 24" by simp
  from assms(2,3) splitToBlocks_split[OF assms(1) lt]
  obtain k where b: "b = block24 (unat w + 256 * k)"
    by (auto split: if_splits)
  with False take_bit8_block[of w k] show ?thesis by (auto simp: block24_def)
qed

text \<open>
  The invariant of the collecting loop: the key list stays duplicate-free, and every key
  is an IPv4 /24.
\<close>

lemma v4_block_iff: "v4_block b \<longleftrightarrow> Is4 (ip b) \<and> Bits b = 24"
  by (cases b) (auto simp: v4_block_def Is4_Addr4 Bits_def)

lemma collect_blocks_inv:
  assumes "collect_blocks ps S = Some out" and "distinct S" and "\<forall>b\<in>set S. v4_block b"
  shows "distinct out \<and> (\<forall>b\<in>set out. v4_block b)"
  using assms
proof (induction ps arbitrary: S)
  case Nil
  then show ?case by simp
next
  case (Cons p ps)
  show ?case
  proof (cases "Is4 (ip p)")
    case False
    with Cons show ?thesis by simp
  next
    case True
    then obtain w where w: "ip p = Addr4 w" by (auto simp: Is4_Addr4)
    from Cons.prems(1) True obtain bs where bs: "splitToBlocks p = Some bs"
      and rest: "collect_blocks ps (fold List.insert bs S) = Some out"
      by (auto split: option.splits)
    have "\<forall>b\<in>set bs. v4_block b"
      using splitToBlocks_blocks[OF w bs] by (auto simp: v4_block_def)
    with Cons.prems have "\<forall>b\<in>set (fold List.insert bs S). v4_block b"
      by (auto simp: set_fold_insert)
    moreover have "distinct (fold List.insert bs S)"
      using Cons.prems(2) by (rule distinct_fold_insert)
    ultimately show ?thesis using Cons.IH[OF rest] by blast
  qed
qed

lemma collect_blocks_defined:
  assumes "\<forall>p\<in>set ps. Is4 (ip p) \<longrightarrow> canonical4 p"
  shows "collect_blocks ps S \<noteq> None"
  using assms
proof (induction ps arbitrary: S)
  case Nil
  then show ?case by simp
next
  case (Cons p ps)
  show ?case
  proof (cases "Is4 (ip p)")
    case False
    with Cons show ?thesis by simp
  next
    case True
    with Cons.prems have c: "canonical4 p" by simp
    then obtain w where w: "ip p = Addr4 w" and b0: "0 \<le> Bits p"
      and tb: "take_bit (32 - nat (Bits p)) w = 0"
      by (auto simp: canonical4_def split: addr.splits)
    have "splitToBlocks p \<noteq> None"
    proof (cases "Bits p \<ge> 24")
      case True
      then show ?thesis using splitToBlocks_align[OF w] by simp
    next
      case False
      then have "Bits p < 24" by simp
      from split_blocks_spec(1)[OF w b0 this tb] show ?thesis by simp
    qed
    then obtain bs where "splitToBlocks p = Some bs" by auto
    with True Cons show ?thesis by simp
  qed
qed

subsection \<open>Evaluating splitToBlocks on a given IPv4 prefix\<close>

lemma splitToBlocks_Addr4:
  "splitToBlocks \<lparr>ip = Addr4 w, bitsPlusOne = n\<rparr> =
     (if 25 \<le> n then Some [\<lparr>ip = Addr4 (push_bit 8 (drop_bit 8 w)), bitsPlusOne = 25\<rparr>]
      else if unat w + 256 * (2 ^ (25 - n) - 1) < 2 ^ 32
        then Some (map (\<lambda>k. block24 (unat w + 256 * k)) [0..<2 ^ (25 - n)])
        else None)"
proof (cases "25 \<le> n")
  case True
  then have "Bits \<lparr>ip = Addr4 w, bitsPlusOne = n\<rparr> \<ge> 24" by (simp add: Bits_def)
  from splitToBlocks_align[OF _ this, of w] True show ?thesis by simp
next
  case False
  then have lt: "Bits \<lparr>ip = Addr4 w, bitsPlusOne = n\<rparr> < 24" by (simp add: Bits_def)
  have "nat (24 - Bits \<lparr>ip = Addr4 w, bitsPlusOne = n\<rparr>) = 25 - n"
    by (simp add: Bits_def)
  with splitToBlocks_split[OF _ lt, of w] False show ?thesis by simp
qed

subsection \<open>The normalizer\<close>

lemma convertToIPv4Blocks_Some:
  assumes "convertToIPv4Blocks ps = Some out"
  shows "distinct out \<and> (\<forall>b\<in>set out. v4_block b) \<and> sorted_wrt prefix_le out"
proof (cases "ps = []")
  case True
  with assms show ?thesis by (simp add: convertToIPv4Blocks_def)
next
  case False
  with assms obtain S where S: "collect_blocks ps [] = Some S"
    and out: "out = SortFunc prefixCompare S"
    by (auto simp: convertToIPv4Blocks_def split: option.splits)
  from collect_blocks_inv[OF S] have "distinct S" "\<forall>b\<in>set S. v4_block b" by simp_all
  then show ?thesis
    unfolding out by (simp add: distinct_SortFunc set_SortFunc sorted_SortFunc)
qed

lemma convertToIPv4Blocks_defined:
  assumes "\<forall>p\<in>set ps. Is4 (ip p) \<longrightarrow> canonical4 p"
  shows "\<exists>out. convertToIPv4Blocks ps = Some out"
  using collect_blocks_defined[OF assms, of "[]"]
  by (auto simp: convertToIPv4Blocks_def)

lemma collect_blocks_aligned:
  assumes "collect_blocks ps S = Some out"
    and "\<forall>b\<in>set S. last_octet_zero (ip b)"
    and "\<forall>p\<in>set ps. Is4 (ip p) \<and> Bits p < 24 \<longrightarrow> last_octet_zero (ip p)"
  shows "\<forall>b\<in>set out. last_octet_zero (ip b)"
  using assms
proof (induction ps arbitrary: S)
  case Nil
  then show ?case by simp
next
  case (Cons p ps)
  show ?case
  proof (cases "Is4 (ip p)")
    case False
    with Cons show ?thesis by simp
  next
    case True
    then obtain w where w: "ip p = Addr4 w" by (auto simp: Is4_Addr4)
    from Cons.prems(1) True obtain bs where bs: "splitToBlocks p = Some bs"
      and rest: "collect_blocks ps (fold List.insert bs S) = Some out"
      by (auto split: option.splits)
    have "last_octet_zero (ip b)" if "b \<in> set bs" for b
    proof -
      from splitToBlocks_blocks[OF w bs that] obtain x where
        x: "b = \<lparr>ip = Addr4 x, bitsPlusOne = 25\<rparr>"
        "if Bits p \<ge> 24 then take_bit 8 x = 0 else take_bit 8 x = take_bit 8 w" by blast
      show ?thesis
      proof (cases "Bits p \<ge> 24")
        case True
        with x show ?thesis by (simp add: last_octet_zero_def)
      next
        case False
        with Cons.prems(3) True w have "take_bit 8 w = 0" by (simp add: last_octet_zero_def)
        with False x show ?thesis by (simp add: last_octet_zero_def)
      qed
    qed
    with Cons.prems(2) have "\<forall>b\<in>set (fold List.insert bs S). last_octet_zero (ip b)"
      by (auto simp: set_fold_insert)
    with Cons.IH[OF rest] Cons.prems(3) show ?thesis by simp
  qed
qed

lemma splitToBlocks_self:
  assumes "v4_block b" and "last_octet_zero (ip b)"
  shows "splitToBlocks b = Some [b]"
proof -
  from assms obtain x where b: "b = \<lparr>ip = Addr4 x, bitsPlusOne = 25\<rparr>" and z: "take_bit 8 x = 0"
    by (auto simp: v4_block_def last_octet_zero_def)
  have "push_bit 8 (drop_bit 8 x) = x" using z bits_ident[of 8 x] by simp
  then show ?thesis by (simp add: b splitToBlocks_Addr4)
qed

lemma collect_blocks_self:
  assumes "\<forall>b\<in>set bs. v4_block b \<and> last_octet_zero (ip b)"
  shows "collect_blocks bs S = Some (fold List.insert bs S)"
  using assms
proof (induction bs arbitrary: S)
  case Nil
  then show ?case by simp
next
  case (Cons b bs)
  then have "splitToBlocks b = Some [b]" and "Is4 (ip b)"
    by (simp_all add: splitToBlocks_self v4_block_iff)
  with Cons show ?case by simp
qed

text \<open>A canonical prefix shorter than /24 has a zero last octet.\<close>

lemma canonical4_last_octet_zero:
  assumes "canonical4 p" and "Bits p < 24"
  shows "last_octet_zero (ip p)"
proof -
  from assms(1) obtain w where w: "ip p = Addr4 w" and b0: "0 \<le> Bits p"
    and tb: "take_bit (32 - nat (Bits p)) w = 0"
    by (auto simp: canonical4_def split: addr.splits)
  have "min 8 (32 - nat (Bits p)) = 8" using assms(2) b0 by simp
  then have "take_bit 8 w = take_bit 8 (take_bit (32 - nat (Bits p)) w)"
    by (simp only: take_bit_take_bit)
  with tb have "take_bit 8 w = 0" by simp
  with w show ?thesis by (simp add: last_octet_zero_def)
qed

subsection \<open>The retry loop\<close>

lemma retry_loop_fail:
  assumes "attempt \<le> maxRetries" and "net (calls w) = Inl err"
  shows "retry_loop net attempt lastErr w =
     retry_loop net (attempt + 1) (Some err)
       (if attempt < maxRetries
        then w\<lparr>calls := calls w + 1, sleeps := sleeps w @ [attempt * retryDelay]\<rparr>
        else w\<lparr>calls := calls w + 1\<rparr>)"
  using assms
  by (subst retry_loop.simps) (simp add: fetchPrefixesSimple_def time_Sleep_def)

lemma retry_loop_ok:
  assumes "attempt \<le> maxRetries" and "net (calls w) = Inr data"
  shows "retry_loop net attempt lastErr w = (Inr data, w\<lparr>calls := calls w + 1\<rparr>)"
  using assms
  by (subst retry_loop.simps) (simp add: fetchPrefixesSimple_def)

lemma retry_loop_done:
  assumes "\<not> attempt \<le> maxRetries"
  shows "retry_loop net attempt lastErr w = (Inl (AllAttemptsFailed maxRetries lastErr), w)"
  using assms by (subst retry_loop.simps) simp

text \<open>
  \<open>n\<close> failed attempts in a row, each followed by its delay: the loop arrives at attempt
  \<open>attempt + n\<close> having made \<open>n\<close> fetches and slept after each of them.
\<close>

lemma retry_loop_failures:
  assumes "attempt + n \<le> maxRetries" and "\<forall>j<n. isl (net (calls w + j))"
  shows "\<exists>lastErr'. retry_loop net attempt lastErr w =
     retry_loop net (attempt + n) lastErr'
       (w\<lparr>calls := calls w + n,
          sleeps := sleeps w @ map (\<lambda>i. i * retryDelay) [attempt..<attempt + n]\<rparr>)"
  using assms
proof (induction n arbitrary: attempt lastErr w)
  case 0
  then show ?case by (intro exI[of _ lastErr]) simp
next
  case (Suc n)
  from Suc.prems(2) obtain err where e: "net (calls w) = Inl err"
    by (auto simp: isl_def dest: spec[of _ 0])
  let ?w1 = "w\<lparr>calls := calls w + 1, sleeps := sleeps w @ [attempt * retryDelay]\<rparr>"
  have lt: "attempt < maxRetries" and le: "attempt \<le> maxRetries" using Suc.prems(1) by simp_all
  have step: "retry_loop net attempt lastErr w = retry_loop net (attempt + 1) (Some err) ?w1"
    using retry_loop_fail[of attempt net w err lastErr] le e lt by simp
  have a: "attempt + 1 + n \<le> maxRetries" using Suc.prems(1) by simp
  have b: "\<forall>j<n. isl (net (calls ?w1 + j))"
  proof (intro allI impI)
    fix j assume "j < n"
    then have "Suc j < Suc n" by simp
    with Suc.prems(2) have "isl (net (calls w + Suc j))" by blast
    then show "isl (net (calls ?w1 + j))" by simp
  qed
  from Suc.IH[OF a b, of "Some err"] obtain l' where
    IH: "retry_loop net (attempt + 1) (Some err) ?w1 =
       retry_loop net (attempt + 1 + n) l'
         (?w1\<lparr>calls := calls ?w1 + n,
            sleeps := sleeps ?w1 @ map (\<lambda>i. i * retryDelay) [attempt + 1..<attempt + 1 + n]\<rparr>)"
    by blast
  have l: "[attempt..<attempt + Suc n] = attempt # [attempt + 1..<attempt + 1 + n]"
    by (simp add: upt_conv_Cons)
  show ?case
    unfolding step IH l by (intro exI[of _ l']) simp
qed

lemma retry_loop_calls:
  "calls (snd (retry_loop net attempt lastErr w)) \<le> calls w + (maxRetries + 1 - attempt)"
proof (induction net attempt lastErr w rule: retry_loop.induct)
  case (1 net attempt lastErr w)
  show ?case
  proof (cases "attempt \<le> maxRetries")
    case False
    then show ?thesis by (simp add: retry_loop_done)
  next
    case True
    show ?thesis
    proof (cases "net (calls w)")
      case (Inr data)
      then show ?thesis using True by (simp add: retry_loop_ok)
    next
      case (Inl err)
      let ?w' = "w\<lparr>calls := calls w + 1\<rparr>"
      let ?w'' = "if attempt < maxRetries then time_Sleep (attempt * retryDelay) ?w' else ?w'"
      have f: "fetchPrefixesSimple net w = (Inl err, ?w')"
        using Inl by (simp add: fetchPrefixesSimple_def)
      have IH: "calls (snd (retry_loop net (attempt + 1) (Some err) ?w''))
                  \<le> calls ?w'' + (maxRetries + 1 - (attempt + 1))"
        by (rule "1.IH"[OF True f[symmetric] refl])
      have c: "calls ?w'' = calls w + 1" by (simp add: time_Sleep_def)
      have "retry_loop net attempt lastErr w = retry_loop net (attempt + 1) (Some err) ?w''"
        using True by (subst retry_loop.simps) (simp add: f)
      with IH c True show ?thesis by simp
    qed
  qed
qed

subsection \<open>The delegated-file parser\<close>

lemma parseDelegatedRecord_eq:
  "(parseDelegatedRecord l :: unit fetch_error + DelegatedRecord) =
     (if 7 \<le> length (Split l (CHR ''|'')) then Inr (record_of_line l)
      else Inl (InvalidRecordFormat l))"
  by (simp add: parseDelegatedRecord_def record_of_line_def Let_def)

lemma parse_loop_eq:
  "parse_loop ls records
     = records @ map record_of_line (filter well_formed_line (map TrimSpace ls))"
proof (induction ls arbitrary: records)
  case Nil
  then show ?case by simp
next
  case (Cons l ls)
  show ?case
    by (simp add: Cons.IH parseDelegatedRecord_eq well_formed_line_def Let_def)
qed

lemma TrimSpace_Nil: "TrimSpace [] = []"
  by (simp add: TrimSpace_def trim_left.simps)

subsection \<open>Trimming white space\<close>

lemma leading_pos:
  assumes "leading seqs s \<noteq> 0"
  shows "\<exists>v\<in>set seqs. leading seqs s = length v \<and> s = v @ drop (leading seqs s) s"
proof -
  from assms obtain v where f: "find (HasPrefix s) seqs = Some v" and n: "leading seqs s = length v"
    by (auto simp: leading_def split: option.splits)
  from f have "v \<in> set seqs" and "HasPrefix s v"
    by (auto simp: find_Some_iff)
  then have "take (length v) s = v" by (simp add: HasPrefix_def)
  then have "s = v @ drop (length v) s" by (metis append_take_drop_id)
  with \<open>v \<in> set seqs\<close> n show ?thesis by auto
qed

lemma trim_left_decomp:
  "\<exists>pre. s = pre @ trim_left seqs s \<and> set pre \<subseteq> ws_chars seqs"
proof (induction seqs s rule: trim_left.induct)
  case (1 seqs s)
  show ?case
  proof (cases "leading seqs s = 0 \<or> s = []")
    case True
    then have "trim_left seqs s = s" by (subst trim_left.simps) simp
    then show ?thesis by (intro exI[of _ "[]"]) simp
  next
    case False
    then have t: "trim_left seqs s = trim_left seqs (drop (leading seqs s) s)"
      by (subst trim_left.simps) simp
    from False leading_pos[of seqs s] obtain v where v: "v \<in> set seqs"
      and s: "s = v @ drop (leading seqs s) s" by auto
    from "1.IH"[OF False] obtain pre where
      pre: "drop (leading seqs s) s = pre @ trim_left seqs (drop (leading seqs s) s)"
      "set pre \<subseteq> ws_chars seqs" by blast
    have "s = (v @ pre) @ trim_left seqs s" using s pre(1) t by (metis append_assoc)
    moreover have "set (v @ pre) \<subseteq> ws_chars seqs" using v pre(2) by (auto simp: ws_chars_def)
    ultimately show ?thesis by blast
  qed
qed

lemma ws_chars_rev: "ws_chars (map rev seqs) = ws_chars seqs"
  by (auto simp: ws_chars_def)

lemma TrimSpace_decomp:
  "\<exists>pre suf. l = pre @ TrimSpace l @ suf
       \<and> set pre \<subseteq> ws_chars white_space \<and> set suf \<subseteq> ws_chars white_space"
proof -
  from trim_left_decomp[of l white_space] obtain pre where
    pre: "l = pre @ trim_left white_space l" "set pre \<subseteq> ws_chars white_space" by blast
  let ?m = "trim_left white_space l"
  from trim_left_decomp[of "rev ?m" "map rev white_space"] obtain q where
    q: "rev ?m = q @ trim_left (map rev white_space) (rev ?m)" "set q \<subseteq> ws_chars white_space"
    by (auto simp: ws_chars_rev)
  from q(1) have "?m = rev (trim_left (map rev white_space) (rev ?m)) @ rev q"
    by (metis rev_append rev_rev_ident)
  then have "?m = TrimSpace l @ rev q" by (simp add: TrimSpace_def)
  with pre(1) have "l = pre @ TrimSpace l @ rev q" by simp
  moreover have "set (rev q) \<subseteq> ws_chars white_space" using q(2) by simp
  ultimately show ?thesis using pre(2) by blast
qed

lemma not_white_space: "CHR ''|'' \<notin> ws_chars white_space" "CHR ''#'' \<notin> ws_chars white_space"
  by (simp_all add: ws_chars_def white_space_def)

lemma HasPrefix_hash: "HasPrefix s ''#'' \<longleftrightarrow> (\<exists>t. s = CHR ''#'' # t)"
  by (cases s) (auto simp: HasPrefix_def)

lemma TrimSpace_hash:
  assumes "HasPrefix l ''#''"
  shows "HasPrefix (TrimSpace l) ''#''"
proof -
  from assms obtain t where l: "l = CHR ''#'' # t" by (auto simp: HasPrefix_hash)
  from TrimSpace_decomp[of l] obtain pre suf where
    d: "l = pre @ TrimSpace l @ suf" "set pre \<subseteq> ws_chars white_space"
       "set suf \<subseteq> ws_chars white_space" by blast
  have "pre = []"
  proof (cases pre)
    case (Cons c cs)
    with d(1) l have "c = CHR ''#''" by simp
    with Cons d(2) not_white_space(2) show ?thesis by auto
  qed simp
  show ?thesis
  proof (cases "TrimSpace l")
    case Nil
    with d(1) \<open>pre = []\<close> l have "CHR ''#'' \<in> set suf" by (metis append_Nil list.set_intros(1))
    with d(3) not_white_space(2) show ?thesis by auto
  next
    case (Cons c cs)
    with d(1) \<open>pre = []\<close> l have "c = CHR ''#''" by simp
    with Cons show ?thesis by (simp add: HasPrefix_hash)
  qed
qed

lemma Split_nonempty: "Split s sep \<noteq> []"
  by (induction s) (auto split: list.splits)

lemma length_Split: "length (Split s sep) = Suc (length (filter (\<lambda>c. c = sep) s))"
proof (induction s)
  case Nil
  then show ?case by simp
next
  case (Cons c cs)
  then show ?case using Split_nonempty[of cs sep] by (auto split: list.splits)
qed

lemma TrimSpace_fields:
  "length (Split (TrimSpace l) (CHR ''|'')) = length (Split l (CHR ''|''))"
proof -
  from TrimSpace_decomp[of l] obtain pre suf where
    d: "l = pre @ TrimSpace l @ suf" "set pre \<subseteq> ws_chars white_space"
       "set suf \<subseteq> ws_chars white_space" by blast
  have "filter (\<lambda>c. c = CHR ''|'') pre = []" "filter (\<lambda>c. c = CHR ''|'') suf = []"
    using d(2,3) not_white_space(1) by (auto simp: filter_empty_conv)
  then have "filter (\<lambda>c. c = CHR ''|'') l = filter (\<lambda>c. c = CHR ''|'') (TrimSpace l)"
    by (subst d(1)) simp
  then show ?thesis by (simp add: length_Split)
qed

lemma strings_Contains_iff: "strings_Contains s sub \<longleftrightarrow> (\<exists>a b. s = a @ sub @ b)"
proof
  assume "strings_Contains s sub"
  then obtain i where h: "HasPrefix (drop i s) sub"
    unfolding strings_Contains_def list_ex_iff by blast
  from h have "take (length sub) (drop i s) = sub" by (simp add: HasPrefix_def)
  then have "drop i s = sub @ drop (length sub) (drop i s)" by (metis append_take_drop_id)
  then have "s = take i s @ sub @ drop (length sub) (drop i s)" by (metis append_take_drop_id)
  then show "\<exists>a b. s = a @ sub @ b" by blast
next
  assume "\<exists>a b. s = a @ sub @ b"
  then obtain a b where s: "s = a @ sub @ b" by blast
  then have "length a \<le> length s" "HasPrefix (drop (length a) s) sub"
    by (simp_all add: HasPrefix_def)
  moreover have "length a \<in> set [0..<Suc (length s)]"
    using \<open>length a \<le> length s\<close> by (simp del: upt_Suc)
  ultimately show "strings_Contains s sub"
    unfolding strings_Contains_def list_ex_iff by blast
qed

lemma TrimSpace_Contains:
  assumes ne: "sub \<noteq> []" and h: "hd sub \<notin> ws_chars white_space"
    and t: "last sub \<notin> ws_chars white_space"
  shows "strings_Contains (TrimSpace l) sub \<longleftrightarrow> strings_Contains l sub"
proof -
  from TrimSpace_decomp[of l] obtain pre suf where
    d: "l = pre @ TrimSpace l @ suf" "set pre \<subseteq> ws_chars white_space"
       "set suf \<subseteq> ws_chars white_space" by blast
  let ?T = "TrimSpace l"
  show ?thesis
  proof
    assume "strings_Contains ?T sub"
    then obtain a b where "?T = a @ sub @ b" by (auto simp: strings_Contains_iff)
    then have "l = (pre @ a) @ sub @ (b @ suf)" using d(1) by simp
    then show "strings_Contains l sub" unfolding strings_Contains_iff by blast
  next
    assume "strings_Contains l sub"
    then obtain a b where ab: "l = a @ sub @ b" by (auto simp: strings_Contains_iff)
    with d(1) have "pre @ (?T @ suf) = a @ (sub @ b)" by simp
    then obtain us where us: "(pre = a @ us \<and> us @ (?T @ suf) = sub @ b)
        \<or> (pre @ us = a \<and> ?T @ suf = us @ (sub @ b))"
      unfolding append_eq_append_conv2 by blast
    have A: "\<exists>us. ?T @ suf = (us @ sub) @ b"
    proof (cases "pre = a @ us \<and> us @ (?T @ suf) = sub @ b")
      case True
      show ?thesis
      proof (cases us)
        case Nil
        with True show ?thesis by (intro exI[of _ "[]"]) simp
      next
        case (Cons c cs)
        with True ne have "c = hd sub" by (cases sub) auto
        moreover have "c \<in> set pre" using True Cons by simp
        ultimately show ?thesis using d(2) h by auto
      qed
    next
      case False
      with us have "?T @ suf = us @ (sub @ b)" by blast
      then show ?thesis by (intro exI[of _ us]) simp
    qed
    then obtain us' where "?T @ suf = (us' @ sub) @ b" by blast
    then obtain vs where vs: "(?T = (us' @ sub) @ vs \<and> vs @ suf = b)
        \<or> (?T @ vs = us' @ sub \<and> suf = vs @ b)"
      unfolding append_eq_append_conv2 by blast
    have "\<exists>a' b'. ?T = a' @ sub @ b'"
    proof (cases "?T = (us' @ sub) @ vs \<and> vs @ suf = b")
      case True
      then show ?thesis by (intro exI[of _ us'] exI[of _ vs]) simp
    next
      case False
      with vs have v: "?T @ vs = us' @ sub" "suf = vs @ b" by blast+
      show ?thesis
      proof (cases "vs = []")
        case True
        with v(1) show ?thesis by (intro exI[of _ us'] exI[of _ "[]"]) simp
      next
        case nv: False
        then have "last (?T @ vs) = last vs" by simp
        moreover have "last (us' @ sub) = last sub" using ne by simp
        ultimately have "last vs = last sub" using v(1) by simp
        moreover have "last vs \<in> set suf" using nv v(2) by simp
        ultimately show ?thesis using d(3) t by auto
      qed
    qed
    then show "strings_Contains ?T sub" unfolding strings_Contains_iff by blast
  qed
qed

lemma TrimSpace_markers:
  "strings_Contains (TrimSpace l) ''|version|'' \<longleftrightarrow> strings_Contains l ''|version|''"
  "strings_Contains (TrimSpace l) ''|summary|'' \<longleftrightarrow> strings_Contains l ''|summary|''"
  by (rule TrimSpace_Contains; simp add: not_white_space)+

text \<open>Which lines yield a record, told by the line as it was read.\<close>

lemma well_formed_line_raw:
  "well_formed_line (TrimSpace l) \<longleftrightarrow>
     TrimSpace l \<noteq> [] \<and> \<not> HasPrefix (TrimSpace l) ''#''
     \<and> \<not> strings_Contains l ''|version|'' \<and> \<not> strings_Contains l ''|summary|''
     \<and> 7 \<le> length (Split l (CHR ''|''))"
  by (simp add: well_formed_line_def TrimSpace_markers TrimSpace_fields)

lemma skipped_lines:
  assumes "l = [] \<or> HasPrefix l ''#'' \<or> strings_Contains l ''|version|''
     \<or> strings_Contains l ''|summary|'' \<or> length (Split l (CHR ''|'')) < 7"
  shows "\<not> well_formed_line (TrimSpace l)"
  using assms TrimSpace_hash[of l]
  by (auto simp: well_formed_line_raw TrimSpace_Nil)

subsection \<open>The ASN resolver\<close>

lemma Atoi_range:
  assumes "Atoi s = Some n"
  shows "- (2 ^ 63) \<le> n \<and> n < 2 ^ 63"
  using assms
  by (auto simp: Atoi_def Let_def split: list.splits if_splits)

lemma add_int64_exact:
  assumes "- (2 ^ 63) \<le> x + y" and "x + y < 2 ^ 63"
  shows "add_int64 x y = x + y"
proof -
  have "0 \<le> x + y + 2 ^ 63" "x + y + 2 ^ 63 < 2 ^ 64" using assms by simp_all
  then have "(x + y + 2 ^ 63) mod 2 ^ 64 = x + y + 2 ^ 63" by (rule mod_pos_pos_trivial)
  then show ?thesis by (simp add: add_int64_def)
qed

lemma add_int64_overflow:
  assumes "2 ^ 63 \<le> x + y" and "x + y < 2 ^ 64"
  shows "add_int64 x y < 0"
proof -
  have "(x + y + 2 ^ 63) mod 2 ^ 64 = (x + y + 2 ^ 63 - 2 ^ 64) mod 2 ^ 64"
    by (metis mod_diff_right_eq mod_self diff_zero)
  also have "\<dots> = x + y + 2 ^ 63 - 2 ^ 64"
    using assms by (intro mod_pos_pos_trivial) simp_all
  finally show ?thesis using assms by (simp add: add_int64_def)
qed

lemma isValidPublicASN_bounds: "isValidPublicASN a \<Longrightarrow> 1 \<le> a \<and> a < 2 ^ 32"
  by (simp add: isValidPublicASN_def split: if_splits)

lemma add_int64_valid:
  assumes "- (2 ^ 63) \<le> s" "s < 2 ^ 63" "0 \<le> i" "i < 2 ^ 63"
  shows "isValidPublicASN (add_int64 s i) \<and> add_int64 s i = a \<longleftrightarrow> isValidPublicASN a \<and> a = s + i"
proof (cases "s + i < 2 ^ 63")
  case True
  then have "add_int64 s i = s + i" using assms by (intro add_int64_exact) simp_all
  then show ?thesis by auto
next
  case False
  then have "add_int64 s i < 0" using assms by (intro add_int64_overflow) simp_all
  then have "\<not> isValidPublicASN (add_int64 s i)" using isValidPublicASN_bounds by fastforce
  moreover have "\<not> isValidPublicASN (s + i)" using False isValidPublicASN_bounds[of "s + i"] by auto
  ultimately show ?thesis by auto
qed

lemma count_list_snoc: "count_list (xs @ [x]) a = count_list xs a + (if x = a then 1 else 0)"
  by simp

lemma range_loop_count:
  assumes "- (2 ^ 63) \<le> s" "s < 2 ^ 63" "cnt < 2 ^ 63" "0 \<le> i"
  shows "count_list (range_loop i cnt s asns) a
     = count_list asns a + (if isValidPublicASN a \<and> s + i \<le> a \<and> a < s + cnt then 1 else 0)"
  using assms
proof (induction i cnt s asns rule: range_loop.induct)
  case (1 i cnt s asns)
  show ?case
  proof (cases "i < cnt")
    case False
    then show ?thesis by (subst range_loop.simps) simp
  next
    case True
    define asns' where "asns' = (if isValidPublicASN (add_int64 s i) then asns @ [add_int64 s i] else asns)"
    have i63: "i < 2 ^ 63" using True "1.prems" by simp
    have v: "isValidPublicASN (add_int64 s i) \<and> add_int64 s i = a \<longleftrightarrow> isValidPublicASN a \<and> a = s + i"
      using add_int64_valid[of s i a] "1.prems" i63 by simp
    have c: "count_list asns' a = count_list asns a + (if isValidPublicASN a \<and> a = s + i then 1 else 0)"
      unfolding asns'_def using v by auto
    have IH: "count_list (range_loop (i + 1) cnt s asns') a
       = count_list asns' a
         + (if isValidPublicASN a \<and> s + (i + 1) \<le> a \<and> a < s + cnt then 1 else 0)"
      unfolding asns'_def using "1.IH"[OF True refl] "1.prems" by simp
    have "range_loop i cnt s asns = range_loop (i + 1) cnt s asns'"
      unfolding asns'_def using True by (subst range_loop.simps) (simp add: Let_def)
    then have "count_list (range_loop i cnt s asns) a = count_list (range_loop (i + 1) cnt s asns') a"
      by (rule arg_cong)
    also note IH
    also note c
    finally show ?thesis using True by auto
  qed
qed

lemma extract_loop_count:
  "count_list (extract_loop records cc asns) a
     = count_list asns a
       + (if isValidPublicASN a then length (filter (\<lambda>r. contributes cc r a) records) else 0)"
proof (induction records arbitrary: asns)
  case Nil
  then show ?case by simp
next
  case (Cons r rs)
  show ?case
  proof (cases "Type r = ''asn'' \<and> CC r = cc \<and> Status r \<noteq> ''reserved'' \<and> Status r \<noteq> ''available''")
    case False
    then have "\<not> contributes cc r a" by (auto simp: contributes_def)
    with False Cons.IH show ?thesis by auto
  next
    case sel: True
    show ?thesis
    proof (cases "Atoi (Start r)")
      case None
      then have "\<not> contributes cc r a" by (simp add: contributes_def)
      with sel None Cons.IH show ?thesis by simp
    next
      case (Some s)
      show ?thesis
      proof (cases "Atoi (Value r)")
        case None
        then have "\<not> contributes cc r a" by (simp add: contributes_def split: option.splits)
        with sel Some None Cons.IH show ?thesis by simp
      next
        case (Some c)
        note rs = Atoi_range[OF \<open>Atoi (Start r) = Some s\<close>] Atoi_range[OF Some]
        have k: "contributes cc r a \<longleftrightarrow> s \<le> a \<and> a < s + c"
          using sel Some \<open>Atoi (Start r) = Some s\<close> by (simp add: contributes_def)
        have "count_list (range_loop 0 c s asns) a
           = count_list asns a + (if isValidPublicASN a \<and> s + 0 \<le> a \<and> a < s + c then 1 else 0)"
          using rs by (intro range_loop_count) simp_all
        moreover have "extract_loop (r # rs) cc asns = extract_loop rs cc (range_loop 0 c s asns)"
          using sel Some \<open>Atoi (Start r) = Some s\<close> by simp
        ultimately show ?thesis using Cons.IH[of "range_loop 0 c s asns"] k by simp
      qed
    qed
  qed
qed

lemma count_list_sort: "count_list (sort xs) a = count_list xs a"
proof -
  have "count (mset (sort xs)) a = count (mset xs) a" by simp
  then show ?thesis by (simp only: count_mset)
qed

text \<open>
  C1. \<open>isValidPublicASN a\<close> is true exactly for \<open>a\<close> in \<open>[1, 64511]\<close> or
  \<open>[131072, 4199999999]\<close>. In particular no valid ASN lies in the rejected sets:
  0, 64512-65534, 65535, 4200000000-4294967294, 4294967295, and the gap 65536-131071.
\<close>

theorem isValidPublicASN_ranges:
  "isValidPublicASN a = (a \<in> {1..64511} \<union> {131072..4199999999})
   \<and> {a. isValidPublicASN a} \<inter>
       ({0} \<union> {64512..65534} \<union> {65535} \<union> {4200000000..4294967294} \<union> {4294967295}
        \<union> {65536..131071}) = {}"
proof
  show "isValidPublicASN a = (a \<in> {1..64511} \<union> {131072..4199999999})"
    by (simp add: isValidPublicASN_def)
next
  have "\<And>x. isValidPublicASN x \<Longrightarrow> (1 \<le> x \<and> x \<le> 64511) \<or> (131072 \<le> x \<and> x \<le> 4199999999)"
    by (simp add: isValidPublicASN_def split: if_splits)
  then show "{a. isValidPublicASN a} \<inter>
       ({0} \<union> {64512..65534} \<union> {65535} \<union> {4200000000..4294967294} \<union> {4294967295}
        \<union> {65536..131071}) = {}"
    by fastforce
qed

text \<open>
  C4. \<open>prefixCompare\<close> is a total order on prefixes: it is transitive and antisymmetric
  (and total, with \<open>compare b a = - compare a b\<close>), and it orders by address family first
  (the 32-bit family before the 128-bit one), then by prefix length ascending, then by
  numeric address value ascending, which is the order \<open>spec_prefix_less\<close> spells out.
\<close>

theorem prefixCompare_total_order:
  "(prefixCompare a b \<le> 0 \<and> prefixCompare b c \<le> 0 \<longrightarrow> prefixCompare a c \<le> 0)
   \<and> (prefixCompare a b \<le> 0 \<and> prefixCompare b a \<le> 0 \<longrightarrow> a = b)
   \<and> (prefixCompare a b \<le> 0 \<or> prefixCompare b a \<le> 0)
   \<and> prefixCompare b a = - prefixCompare a b
   \<and> (prefixCompare a b < 0 \<longleftrightarrow> spec_prefix_less a b)
   \<and> (prefixCompare a b = 0 \<longleftrightarrow> a = b)
   \<and> (prefixCompare a b > 0 \<longleftrightarrow> spec_prefix_less b a)
   \<and> (Is4 (ip a) \<and> Is6 (ip b) \<longrightarrow> prefixCompare a b < 0)"
proof -
  have fam: "Is4 (ip a) \<and> Is6 (ip b) \<longrightarrow> prefixCompare a b < 0"
    by (auto simp: prefixCompare_less spec_prefix_less_def Is4_def Is6_def BitLen_def
        split: addr.splits)
  have tr: "prefixCompare a b \<le> 0 \<and> prefixCompare b c \<le> 0 \<longrightarrow> prefixCompare a c \<le> 0"
    using prefixCompare_trans[of a b c] by blast
  have an: "prefixCompare a b \<le> 0 \<and> prefixCompare b a \<le> 0 \<longrightarrow> a = b"
    using prefixCompare_antisym[of a b] by blast
  show ?thesis
    using tr an prefixCompare_total[of a b] prefixCompare_neg[where a = a and b = b]
      prefixCompare_less[of a b] prefixCompare_zero[of a b] prefixCompare_greater[of a b] fam
    by (intro conjI)
qed

theorem prefixCompare_total_order_witness:
  "prefixCompare \<lparr>ip = Addr4 0x0A000000, bitsPlusOne = 9\<rparr> \<lparr>ip = Addr4 0x0A000000, bitsPlusOne = 17\<rparr> \<le> 0
   \<and> prefixCompare \<lparr>ip = Addr4 0x0A000000, bitsPlusOne = 17\<rparr> \<lparr>ip = Addr6 0 1, bitsPlusOne = 9\<rparr> \<le> 0
   \<and> prefixCompare \<lparr>ip = Addr4 0x0A000000, bitsPlusOne = 9\<rparr> \<lparr>ip = Addr6 0 1, bitsPlusOne = 9\<rparr> \<le> 0
   \<and> Is4 (ip \<lparr>ip = Addr4 0x0A000000, bitsPlusOne = 9\<rparr>)
   \<and> Is6 (ip \<lparr>ip = Addr6 0 1, bitsPlusOne = 9\<rparr>)
   \<and> prefixCompare \<lparr>ip = Addr4 0x0A000000, bitsPlusOne = 9\<rparr> \<lparr>ip = Addr6 0 1, bitsPlusOne = 9\<rparr> < 0
   \<and> prefixCompare \<lparr>ip = Addr6 0 1, bitsPlusOne = 9\<rparr> \<lparr>ip = Addr6 0 1, bitsPlusOne = 9\<rparr> \<le> 0"
proof -
  let ?A = "\<lparr>ip = Addr4 0x0A000000, bitsPlusOne = 9\<rparr>"
  let ?B = "\<lparr>ip = Addr4 0x0A000000, bitsPlusOne = 17\<rparr>"
  let ?C = "\<lparr>ip = Addr6 0 1, bitsPlusOne = 9\<rparr>"
  have ab: "prefixCompare ?A ?B \<le> 0"
    by (simp add: prefixCompare_def cmpCompare_def BitLen_def Bits_def)
  have bc: "prefixCompare ?B ?C \<le> 0"
    by (simp add: prefixCompare_def cmpCompare_def BitLen_def Bits_def)
  have cc: "prefixCompare ?C ?C \<le> 0"
    by (simp add: prefixCompare_def cmpCompare_def BitLen_def Bits_def addrCompare_def)
  have fam: "Is4 (ip ?A)" "Is6 (ip ?C)"
    by (simp_all add: Is4_def Is6_def)
  from prefixCompare_total_order[of ?A ?B ?C] ab bc have ac: "prefixCompare ?A ?C \<le> 0"
    by blast
  from prefixCompare_total_order[of ?A ?C ?C] fam have lt: "prefixCompare ?A ?C < 0"
    by blast
  from prefixCompare_total_order[of ?C ?C ?C] cc have "?C = ?C"
    by blast
  with ab bc ac fam lt cc show ?thesis by blast
qed

text \<open>
  C6. For an IPv4 prefix of length 24 or more, \<open>splitToBlocks\<close> returns one prefix; its
  length is 24, its address keeps the first three octets (the first 24 bits) of the
  input's address, and its last octet is zero.
\<close>

theorem splitToBlocks_align_24:
  assumes "ip p = Addr4 w" and "Bits p \<ge> 24"
  shows "\<exists>w'. splitToBlocks p = Some [\<lparr>ip = Addr4 w', bitsPlusOne = 25\<rparr>]
           \<and> Bits \<lparr>ip = Addr4 w', bitsPlusOne = 25\<rparr> = 24
           \<and> drop_bit 8 w' = drop_bit 8 w \<and> take_bit 8 w' = 0
           \<and> take 3 (be_bytes32 w') = take 3 (be_bytes32 w) \<and> be_bytes32 w' ! 3 = 0"
proof -
  let ?w = "push_bit 8 (drop_bit 8 w)"
  have d: "drop_bit 8 ?w = drop_bit 8 w"
    by (rule bit_word_eqI) (auto simp: bit_simps dest: bit_imp_le_length)
  have t: "take_bit 8 ?w = 0"
    by (rule bit_word_eqI) (auto simp: bit_simps)
  have ds: "drop_bit 24 ?w = drop_bit 24 w" "drop_bit 16 ?w = drop_bit 16 w"
    by (rule bit_word_eqI, auto simp: bit_simps dest: bit_imp_le_length)+
  have u: "(ucast ?w :: byte) = 0"
    by (rule bit_word_eqI) (auto simp: bit_simps)
  have "take 3 (be_bytes32 ?w) = take 3 (be_bytes32 w)" "be_bytes32 ?w ! 3 = 0"
    using d ds u by (simp_all add: be_bytes32_def)
  with d t splitToBlocks_align[OF assms] show ?thesis
    by (simp add: Bits_def)
qed

theorem splitToBlocks_align_24_witness:
  "Bits \<lparr>ip = Addr4 0x0A01024D, bitsPlusOne = 29\<rparr> \<ge> 24
   \<and> splitToBlocks \<lparr>ip = Addr4 0x0A01024D, bitsPlusOne = 29\<rparr>
       = Some [\<lparr>ip = Addr4 0x0A010200, bitsPlusOne = 25\<rparr>]"
proof -
  let ?p = "\<lparr>ip = Addr4 0x0A01024D, bitsPlusOne = 29\<rparr>"
  have h1: "ip ?p = Addr4 0x0A01024D" by simp
  have h2: "Bits ?p \<ge> 24" by (simp add: Bits_def)
  from splitToBlocks_align_24[OF h1 h2] obtain w' where
    s: "splitToBlocks ?p = Some [\<lparr>ip = Addr4 w', bitsPlusOne = 25\<rparr>]" by blast
  have "splitToBlocks ?p = Some [\<lparr>ip = Addr4 0x0A010200, bitsPlusOne = 25\<rparr>]"
    by (simp add: splitToBlocks_align[OF h1 h2])
  with h2 s show ?thesis by simp
qed

text \<open>
  C2 (amended). For every IPv4 prefix \<open>p\<close> in canonical form (its address is its network
  address: all host bits are zero) with prefix length \<open>0 \<le> L < 24\<close>, \<open>splitToBlocks\<close>
  returns exactly \<open>2^(24 - L)\<close> distinct /24 networks, the \<open>i\<close>-th at the base address
  plus \<open>256 * i\<close>, which together contain exactly the addresses of \<open>p\<close> and do not
  overlap. The program takes the prefix's address as it is given: when host bits are set
  the blocks start at that address, not at the network address, as the counterexample
  (10.0.1.0/23) shows.
\<close>

theorem splitToBlocks_canonical:
  assumes "canonical4 p" and "Bits p < 24"
  shows "\<exists>bs. splitToBlocks p = Some bs \<and> spec_split24 p bs"
proof -
  from assms(1) obtain w where w: "ip p = Addr4 w" and b0: "0 \<le> Bits p"
    and tb: "take_bit (32 - nat (Bits p)) w = 0"
    by (auto simp: canonical4_def split: addr.splits)
  from split_blocks_spec[OF w b0 assms(2) tb] show ?thesis by blast
qed

theorem splitToBlocks_canonical_witness:
  "canonical4 \<lparr>ip = Addr4 0x0A000000, bitsPlusOne = 23\<rparr>
   \<and> Bits \<lparr>ip = Addr4 0x0A000000, bitsPlusOne = 23\<rparr> < 24
   \<and> splitToBlocks \<lparr>ip = Addr4 0x0A000000, bitsPlusOne = 23\<rparr>
       = Some [\<lparr>ip = Addr4 0x0A000000, bitsPlusOne = 25\<rparr>, \<lparr>ip = Addr4 0x0A000100, bitsPlusOne = 25\<rparr>,
               \<lparr>ip = Addr4 0x0A000200, bitsPlusOne = 25\<rparr>, \<lparr>ip = Addr4 0x0A000300, bitsPlusOne = 25\<rparr>]
   \<and> spec_split24 \<lparr>ip = Addr4 0x0A000000, bitsPlusOne = 23\<rparr>
        [\<lparr>ip = Addr4 0x0A000000, bitsPlusOne = 25\<rparr>, \<lparr>ip = Addr4 0x0A000100, bitsPlusOne = 25\<rparr>,
         \<lparr>ip = Addr4 0x0A000200, bitsPlusOne = 25\<rparr>, \<lparr>ip = Addr4 0x0A000300, bitsPlusOne = 25\<rparr>]"
proof -
  let ?p = "\<lparr>ip = Addr4 0x0A000000, bitsPlusOne = 23\<rparr>"
  have b: "Bits ?p = 22" by (simp add: Bits_def)
  have h1: "canonical4 ?p" by (simp add: canonical4_def b)
  have h2: "Bits ?p < 24" by (simp add: b)
  have ipp: "ip ?p = Addr4 0x0A000000" by simp
  have s: "splitToBlocks ?p
       = Some [\<lparr>ip = Addr4 0x0A000000, bitsPlusOne = 25\<rparr>, \<lparr>ip = Addr4 0x0A000100, bitsPlusOne = 25\<rparr>,
               \<lparr>ip = Addr4 0x0A000200, bitsPlusOne = 25\<rparr>, \<lparr>ip = Addr4 0x0A000300, bitsPlusOne = 25\<rparr>]"
    by (simp add: splitToBlocks_split[OF ipp h2] b block24_def upt_rec)
  from splitToBlocks_canonical[OF h1 h2] s h1 h2 show ?thesis by auto
qed

theorem splitToBlocks_host_bits_counterexample:
  "splitToBlocks \<lparr>ip = Addr4 0x0A000100, bitsPlusOne = 24\<rparr>
       = Some [\<lparr>ip = Addr4 0x0A000100, bitsPlusOne = 25\<rparr>, \<lparr>ip = Addr4 0x0A000200, bitsPlusOne = 25\<rparr>]
   \<and> network_address \<lparr>ip = Addr4 0x0A000100, bitsPlusOne = 24\<rparr> = 0x0A000000
   \<and> Contains \<lparr>ip = Addr4 0x0A000100, bitsPlusOne = 24\<rparr> (Addr4 0x0A000000)
   \<and> \<not> Contains \<lparr>ip = Addr4 0x0A000100, bitsPlusOne = 25\<rparr> (Addr4 0x0A000000)
   \<and> \<not> Contains \<lparr>ip = Addr4 0x0A000200, bitsPlusOne = 25\<rparr> (Addr4 0x0A000000)
   \<and> \<not> Contains \<lparr>ip = Addr4 0x0A000100, bitsPlusOne = 24\<rparr> (Addr4 0x0A000200)
   \<and> Contains \<lparr>ip = Addr4 0x0A000200, bitsPlusOne = 25\<rparr> (Addr4 0x0A000200)
   \<and> \<not> spec_split24 \<lparr>ip = Addr4 0x0A000100, bitsPlusOne = 24\<rparr>
        [\<lparr>ip = Addr4 0x0A000100, bitsPlusOne = 25\<rparr>, \<lparr>ip = Addr4 0x0A000200, bitsPlusOne = 25\<rparr>]"
proof -
  let ?p = "\<lparr>ip = Addr4 0x0A000100, bitsPlusOne = 24\<rparr>"
  have b: "Bits ?p = 23" by (simp add: Bits_def)
  have ipp: "ip ?p = Addr4 0x0A000100" by simp
  have s: "splitToBlocks ?p
       = Some [\<lparr>ip = Addr4 0x0A000100, bitsPlusOne = 25\<rparr>, \<lparr>ip = Addr4 0x0A000200, bitsPlusOne = 25\<rparr>]"
    by (simp add: splitToBlocks_split[OF ipp] b block24_def upt_rec)
  have na: "network_address ?p = 0x0A000000"
    by (simp add: network_address_def b)
  have c: "Contains ?p (Addr4 0x0A000000)"
    "\<not> Contains \<lparr>ip = Addr4 0x0A000100, bitsPlusOne = 25\<rparr> (Addr4 0x0A000000)"
    "\<not> Contains \<lparr>ip = Addr4 0x0A000200, bitsPlusOne = 25\<rparr> (Addr4 0x0A000000)"
    "\<not> Contains ?p (Addr4 0x0A000200)"
    "Contains \<lparr>ip = Addr4 0x0A000200, bitsPlusOne = 25\<rparr> (Addr4 0x0A000200)"
    by (simp_all add: Contains_nat Bits_def)
  have "\<not> spec_split24 ?p
        [\<lparr>ip = Addr4 0x0A000100, bitsPlusOne = 25\<rparr>, \<lparr>ip = Addr4 0x0A000200, bitsPlusOne = 25\<rparr>]"
  proof
    assume "spec_split24 ?p
        [\<lparr>ip = Addr4 0x0A000100, bitsPlusOne = 25\<rparr>, \<lparr>ip = Addr4 0x0A000200, bitsPlusOne = 25\<rparr>]"
    then have "[\<lparr>ip = Addr4 0x0A000100, bitsPlusOne = 25\<rparr>, \<lparr>ip = Addr4 0x0A000200, bitsPlusOne = 25\<rparr>] ! 0
        = block24 (unat (network_address ?p) + 256 * 0)"
      unfolding spec_split24_def by fastforce
    then show False by (simp add: na block24_def)
  qed
  with s na c show ?thesis by simp
qed

text \<open>
  C3. Whatever list \<open>convertToIPv4Blocks\<close> returns, for any input list (repeated and
  overlapping prefixes included), it has no duplicate entries, every entry is an IPv4
  prefix of length exactly 24, and it is sorted by the canonical comparator (strictly,
  since the entries are distinct). The function returns such a list whenever every IPv4
  prefix of the input is in canonical form; \<open>None\<close> stands for the panic of
  \<open>intToIP\<close> on a prefix whose blocks would pass the end of the address space.
\<close>

theorem convertToIPv4Blocks_normal_form:
  "(\<forall>out. convertToIPv4Blocks ps = Some out \<longrightarrow>
       distinct out
       \<and> (\<forall>b\<in>set out. Is4 (ip b) \<and> Bits b = 24)
       \<and> sorted_wrt (\<lambda>a b. prefixCompare a b \<le> 0) out
       \<and> sorted_wrt (\<lambda>a b. prefixCompare a b < 0) out)
   \<and> ((\<forall>p\<in>set ps. Is4 (ip p) \<longrightarrow> canonical4 p) \<longrightarrow> (\<exists>out. convertToIPv4Blocks ps = Some out))"
proof (intro conjI allI impI)
  fix out assume a: "convertToIPv4Blocks ps = Some out"
  note s = convertToIPv4Blocks_Some[OF a]
  show "distinct out" using s by simp
  show "\<forall>b\<in>set out. Is4 (ip b) \<and> Bits b = 24" using s by (simp add: v4_block_iff)
  show "sorted_wrt (\<lambda>a b. prefixCompare a b \<le> 0) out" using s by simp
  show "sorted_wrt (\<lambda>a b. prefixCompare a b < 0) out"
    using s by (simp add: sorted_distinct_strict)
next
  assume "\<forall>p\<in>set ps. Is4 (ip p) \<longrightarrow> canonical4 p"
  then show "\<exists>out. convertToIPv4Blocks ps = Some out" by (rule convertToIPv4Blocks_defined)
qed

theorem convertToIPv4Blocks_normal_form_witness:
  "canonical4 \<lparr>ip = Addr4 0x0A000000, bitsPlusOne = 24\<rparr>
   \<and> canonical4 \<lparr>ip = Addr4 0x0A000100, bitsPlusOne = 25\<rparr>
   \<and> canonical4 \<lparr>ip = Addr4 0x0A000180, bitsPlusOne = 26\<rparr>
   \<and> convertToIPv4Blocks
     [\<lparr>ip = Addr4 0x0A000000, bitsPlusOne = 24\<rparr>, \<lparr>ip = Addr4 0x0A000100, bitsPlusOne = 25\<rparr>,
      \<lparr>ip = Addr6 0 1, bitsPlusOne = 65\<rparr>,
      \<lparr>ip = Addr4 0x0A000000, bitsPlusOne = 24\<rparr>, \<lparr>ip = Addr4 0x0A000180, bitsPlusOne = 26\<rparr>]
     = Some [\<lparr>ip = Addr4 0x0A000000, bitsPlusOne = 25\<rparr>, \<lparr>ip = Addr4 0x0A000100, bitsPlusOne = 25\<rparr>]
   \<and> distinct [\<lparr>ip = Addr4 0x0A000000, bitsPlusOne = 25\<rparr>, \<lparr>ip = Addr4 0x0A000100, bitsPlusOne = 25\<rparr>]
   \<and> sorted_wrt (\<lambda>a b. prefixCompare a b < 0)
        [\<lparr>ip = Addr4 0x0A000000, bitsPlusOne = 25\<rparr>, \<lparr>ip = Addr4 0x0A000100, bitsPlusOne = 25\<rparr>]"
proof -
  let ?ps = "[\<lparr>ip = Addr4 0x0A000000, bitsPlusOne = 24\<rparr>, \<lparr>ip = Addr4 0x0A000100, bitsPlusOne = 25\<rparr>,
      \<lparr>ip = Addr6 0 1, bitsPlusOne = 65\<rparr>,
      \<lparr>ip = Addr4 0x0A000000, bitsPlusOne = 24\<rparr>, \<lparr>ip = Addr4 0x0A000180, bitsPlusOne = 26\<rparr>]"
  let ?out = "[\<lparr>ip = Addr4 0x0A000000, bitsPlusOne = 25\<rparr>, \<lparr>ip = Addr4 0x0A000100, bitsPlusOne = 25\<rparr>]"
  have c: "canonical4 \<lparr>ip = Addr4 0x0A000000, bitsPlusOne = 24\<rparr>"
     "canonical4 \<lparr>ip = Addr4 0x0A000100, bitsPlusOne = 25\<rparr>"
     "canonical4 \<lparr>ip = Addr4 0x0A000180, bitsPlusOne = 26\<rparr>"
    by (simp_all add: canonical4_def Bits_def)
  have h: "\<forall>p\<in>set ?ps. Is4 (ip p) \<longrightarrow> canonical4 p"
    using c by (simp add: Is4_def)
  have e: "convertToIPv4Blocks ?ps = Some ?out"
    by (simp add: convertToIPv4Blocks_def Is4_def splitToBlocks_Addr4 block24_def upt_rec
        SortFunc_def prefixCompare_def cmpCompare_def BitLen_def Bits_def addrCompare_def)
  from convertToIPv4Blocks_normal_form[of ?ps] h e
  have "distinct ?out \<and> sorted_wrt (\<lambda>a b. prefixCompare a b < 0) ?out" by blast
  with c e show ?thesis by blast
qed

text \<open>
  C9 (amended). Normalizing is idempotent on every output computed from an input whose
  IPv4 prefixes shorter than /24 have a zero last address octet (every canonical prefix
  does): normalizing that output again returns the identical list. Without the condition
  the output keeps the nonzero last octet of the input address and a second pass clears
  it, as the counterexample (10.0.0.5/23) shows.
\<close>

theorem convertToIPv4Blocks_idempotent:
  assumes "convertToIPv4Blocks ps = Some out"
    and "\<forall>p\<in>set ps. Is4 (ip p) \<and> Bits p < 24 \<longrightarrow> last_octet_zero (ip p)"
  shows "convertToIPv4Blocks out = Some out"
proof (cases "out = []")
  case True
  then show ?thesis by (simp add: convertToIPv4Blocks_def)
next
  case False
  then have ne: "ps \<noteq> []" using assms(1) by (auto simp: convertToIPv4Blocks_def)
  with assms(1) obtain S where S: "collect_blocks ps [] = Some S"
    and out: "out = SortFunc prefixCompare S"
    by (auto simp: convertToIPv4Blocks_def split: option.splits)
  from collect_blocks_aligned[OF S _ assms(2)] have "\<forall>b\<in>set S. last_octet_zero (ip b)" by simp
  then have al: "\<forall>b\<in>set out. last_octet_zero (ip b)" by (simp add: out set_SortFunc)
  note s = convertToIPv4Blocks_Some[OF assms(1)]
  from s al have "collect_blocks out [] = Some (fold List.insert out [])"
    by (intro collect_blocks_self) simp
  moreover have "mset (fold List.insert out []) = mset out"
    using s by (intro iffD1[OF set_eq_iff_mset_eq_distinct])
       (simp_all add: distinct_fold_insert set_fold_insert)
  then have "SortFunc prefixCompare (fold List.insert out []) = SortFunc prefixCompare out"
    by (rule SortFunc_unique)
  moreover have "SortFunc prefixCompare out = out"
    using s by (simp add: SortFunc_sorted_id)
  ultimately show ?thesis using False by (simp add: convertToIPv4Blocks_def)
qed

theorem convertToIPv4Blocks_idempotent_witness:
  "convertToIPv4Blocks
     [\<lparr>ip = Addr4 0x0A000000, bitsPlusOne = 24\<rparr>, \<lparr>ip = Addr4 0x0A000305, bitsPlusOne = 29\<rparr>]
     = Some [\<lparr>ip = Addr4 0x0A000000, bitsPlusOne = 25\<rparr>, \<lparr>ip = Addr4 0x0A000100, bitsPlusOne = 25\<rparr>,
             \<lparr>ip = Addr4 0x0A000300, bitsPlusOne = 25\<rparr>]
   \<and> last_octet_zero (ip \<lparr>ip = Addr4 0x0A000000, bitsPlusOne = 24\<rparr>)
   \<and> convertToIPv4Blocks
       [\<lparr>ip = Addr4 0x0A000000, bitsPlusOne = 25\<rparr>, \<lparr>ip = Addr4 0x0A000100, bitsPlusOne = 25\<rparr>,
        \<lparr>ip = Addr4 0x0A000300, bitsPlusOne = 25\<rparr>]
     = Some [\<lparr>ip = Addr4 0x0A000000, bitsPlusOne = 25\<rparr>, \<lparr>ip = Addr4 0x0A000100, bitsPlusOne = 25\<rparr>,
             \<lparr>ip = Addr4 0x0A000300, bitsPlusOne = 25\<rparr>]"
proof -
  let ?ps = "[\<lparr>ip = Addr4 0x0A000000, bitsPlusOne = 24\<rparr>, \<lparr>ip = Addr4 0x0A000305, bitsPlusOne = 29\<rparr>]"
  let ?out = "[\<lparr>ip = Addr4 0x0A000000, bitsPlusOne = 25\<rparr>, \<lparr>ip = Addr4 0x0A000100, bitsPlusOne = 25\<rparr>,
             \<lparr>ip = Addr4 0x0A000300, bitsPlusOne = 25\<rparr>]"
  have e: "convertToIPv4Blocks ?ps = Some ?out"
    by (simp add: convertToIPv4Blocks_def Is4_def splitToBlocks_Addr4 block24_def upt_rec
        SortFunc_def prefixCompare_def cmpCompare_def BitLen_def Bits_def addrCompare_def)
  have z: "last_octet_zero (ip \<lparr>ip = Addr4 0x0A000000, bitsPlusOne = 24\<rparr>)"
    by (simp add: last_octet_zero_def)
  have h: "\<forall>p\<in>set ?ps. Is4 (ip p) \<and> Bits p < 24 \<longrightarrow> last_octet_zero (ip p)"
    using z by (simp add: Bits_def)
  from convertToIPv4Blocks_idempotent[OF e h] e z show ?thesis by blast
qed

theorem convertToIPv4Blocks_idempotent_counterexample:
  "convertToIPv4Blocks [\<lparr>ip = Addr4 0x0A000005, bitsPlusOne = 24\<rparr>]
     = Some [\<lparr>ip = Addr4 0x0A000005, bitsPlusOne = 25\<rparr>, \<lparr>ip = Addr4 0x0A000105, bitsPlusOne = 25\<rparr>]
   \<and> convertToIPv4Blocks
       [\<lparr>ip = Addr4 0x0A000005, bitsPlusOne = 25\<rparr>, \<lparr>ip = Addr4 0x0A000105, bitsPlusOne = 25\<rparr>]
     = Some [\<lparr>ip = Addr4 0x0A000000, bitsPlusOne = 25\<rparr>, \<lparr>ip = Addr4 0x0A000100, bitsPlusOne = 25\<rparr>]
   \<and> [\<lparr>ip = Addr4 0x0A000000, bitsPlusOne = 25\<rparr>, \<lparr>ip = Addr4 0x0A000100, bitsPlusOne = 25\<rparr>]
       \<noteq> [\<lparr>ip = Addr4 0x0A000005, bitsPlusOne = 25\<rparr>, \<lparr>ip = Addr4 0x0A000105, bitsPlusOne = 25\<rparr>]"
  by (simp add: convertToIPv4Blocks_def Is4_def splitToBlocks_Addr4 block24_def upt_rec
        SortFunc_def prefixCompare_def cmpCompare_def BitLen_def Bits_def addrCompare_def)

text \<open>
  C5. \<open>fetchWithRetrySimple\<close> makes at most 4 fetches. If attempt \<open>k \<le> 4\<close> is the first
  to succeed, it returns that attempt's data with no error after exactly \<open>k\<close> fetches,
  having slept \<open>i * retryDelay\<close> after each failed attempt \<open>i < k\<close> (linear backoff: one
  unit after attempt 1, two after attempt 2, ...). If all 4 attempts fail it returns the
  error wrapping the 4th attempt's error, after 4 fetches and the delays of 1, 2 and 3
  units (no delay follows the last attempt).
\<close>

theorem fetchWithRetrySimple_policy:
  "maxRetries = 4
   \<and> calls (snd (fetchWithRetrySimple net w)) \<le> calls w + maxRetries
   \<and> (\<forall>k data. 1 \<le> k \<and> k \<le> maxRetries
          \<and> (\<forall>j<k - 1. isl (net (calls w + j))) \<and> net (calls w + (k - 1)) = Inr data \<longrightarrow>
        fetchWithRetrySimple net w
          = (Inr data, w\<lparr>calls := calls w + k,
                          sleeps := sleeps w @ map (\<lambda>i. i * retryDelay) [1..<k]\<rparr>))
   \<and> (\<forall>err. (\<forall>j<maxRetries - 1. isl (net (calls w + j)))
          \<and> net (calls w + (maxRetries - 1)) = Inl err \<longrightarrow>
        fetchWithRetrySimple net w
          = (Inl (AllAttemptsFailed maxRetries (Some err)),
             w\<lparr>calls := calls w + maxRetries,
               sleeps := sleeps w @ map (\<lambda>i. i * retryDelay) [1..<maxRetries]\<rparr>))"
proof (intro conjI allI impI)
  show "maxRetries = 4" by (simp add: maxRetries_def)
next
  show "calls (snd (fetchWithRetrySimple net w)) \<le> calls w + maxRetries"
    using retry_loop_calls[of net 1 None w] by (simp add: fetchWithRetrySimple_def)
next
  fix k data
  assume a: "1 \<le> k \<and> k \<le> maxRetries
          \<and> (\<forall>j<k - 1. isl (net (calls w + j))) \<and> net (calls w + (k - 1)) = Inr data"
  then have le: "1 + (k - 1) \<le> maxRetries" and fl: "\<forall>j<k - 1. isl (net (calls w + j))"
    and k: "1 + (k - 1) = k" by simp_all
  let ?w = "w\<lparr>calls := calls w + (k - 1),
               sleeps := sleeps w @ map (\<lambda>i. i * retryDelay) [1..<1 + (k - 1)]\<rparr>"
  from retry_loop_failures[OF le fl, of None] obtain l' where
    "retry_loop net 1 None w = retry_loop net (1 + (k - 1)) l' ?w" by blast
  also have "\<dots> = (Inr data, ?w\<lparr>calls := calls ?w + 1\<rparr>)"
  proof (rule retry_loop_ok[OF le])
    have c: "calls ?w = calls w + (k - 1)" by simp
    from a show "net (calls ?w) = Inr data" unfolding c by blast
  qed
  finally show "fetchWithRetrySimple net w
          = (Inr data, w\<lparr>calls := calls w + k,
                          sleeps := sleeps w @ map (\<lambda>i. i * retryDelay) [1..<k]\<rparr>)"
    using a by (simp add: fetchWithRetrySimple_def k)
next
  fix err
  assume a: "(\<forall>j<maxRetries - 1. isl (net (calls w + j)))
          \<and> net (calls w + (maxRetries - 1)) = Inl err"
  have mr: "maxRetries = 4" by (simp add: maxRetries_def)
  from a have fl: "\<forall>j<3. isl (net (calls w + j))" and e: "net (calls w + 3) = Inl err"
    by (simp_all add: mr)
  define w3 where "w3 = w\<lparr>calls := calls w + 3,
               sleeps := sleeps w @ map (\<lambda>i. i * retryDelay) [1..<1 + 3]\<rparr>"
  have c3: "calls w3 = calls w + 3" by (simp add: w3_def)
  have "1 + 3 \<le> maxRetries" by (simp add: mr)
  from retry_loop_failures[OF this fl, of None] obtain l' where
    s1: "retry_loop net 1 None w = retry_loop net (1 + 3) l' w3" unfolding w3_def by blast
  have "1 + 3 \<le> maxRetries" "net (calls w3) = Inl err" "\<not> 1 + 3 < maxRetries"
    using e by (simp_all add: mr c3)
  then have s2: "retry_loop net (1 + 3) l' w3
      = retry_loop net (1 + 3 + 1) (Some err) (w3\<lparr>calls := calls w3 + 1\<rparr>)"
    using retry_loop_fail[of "1 + 3" net w3 err l'] by (simp only: if_False)
  have "\<not> 1 + 3 + 1 \<le> maxRetries" by (simp add: mr)
  then have s3: "retry_loop net (1 + 3 + 1) (Some err) (w3\<lparr>calls := calls w3 + 1\<rparr>)
      = (Inl (AllAttemptsFailed maxRetries (Some err)), w3\<lparr>calls := calls w3 + 1\<rparr>)"
    by (rule retry_loop_done)
  have "w3\<lparr>calls := calls w3 + 1\<rparr>
      = w\<lparr>calls := calls w + maxRetries,
               sleeps := sleeps w @ map (\<lambda>i. i * retryDelay) [1..<maxRetries]\<rparr>"
    by (simp add: w3_def mr)
  with s1 s2 s3 show "fetchWithRetrySimple net w
          = (Inl (AllAttemptsFailed maxRetries (Some err)),
             w\<lparr>calls := calls w + maxRetries,
               sleeps := sleeps w @ map (\<lambda>i. i * retryDelay) [1..<maxRetries]\<rparr>)"
    by (simp only: fetchWithRetrySimple_def)
qed

theorem fetchWithRetrySimple_policy_witness:
  "fetchWithRetrySimple (\<lambda>k::nat. if k < 3 then (Inl k :: nat + bgp_prefix list) else Inr [])
       \<lparr>calls = 0, sleeps = []\<rparr>
     = (Inr [], \<lparr>calls = 4, sleeps = [1000000000, 2000000000, 3000000000]\<rparr>)
   \<and> fetchWithRetrySimple (\<lambda>k::nat. (Inl k :: nat + bgp_prefix list)) \<lparr>calls = 0, sleeps = []\<rparr>
     = (Inl (AllAttemptsFailed 4 (Some 3)),
        \<lparr>calls = 4, sleeps = [1000000000, 2000000000, 3000000000]\<rparr>)"
proof -
  let ?net = "\<lambda>k::nat. if k < 3 then (Inl k :: nat + bgp_prefix list) else Inr []"
  let ?bad = "\<lambda>k::nat. (Inl k :: nat + bgp_prefix list)"
  let ?w = "\<lparr>calls = 0, sleeps = []\<rparr>"
  have h1: "1 \<le> (4::nat) \<and> 4 \<le> maxRetries
          \<and> (\<forall>j<4 - 1. isl (?net (calls ?w + j))) \<and> ?net (calls ?w + (4 - 1)) = Inr []"
    by (simp add: maxRetries_def)
  from fetchWithRetrySimple_policy[of ?net ?w] h1
  have "fetchWithRetrySimple ?net ?w
          = (Inr [], ?w\<lparr>calls := calls ?w + 4,
                          sleeps := sleeps ?w @ map (\<lambda>i. i * retryDelay) [1..<4]\<rparr>)"
    by blast
  then have r1: "fetchWithRetrySimple ?net ?w
     = (Inr [], \<lparr>calls = 4, sleeps = [1000000000, 2000000000, 3000000000]\<rparr>)"
    by (simp add: retryDelay_def upt_rec)
  have h2: "(\<forall>j<maxRetries - 1. isl (?bad (calls ?w + j)))
          \<and> ?bad (calls ?w + (maxRetries - 1)) = Inl 3"
    by (simp add: maxRetries_def)
  from fetchWithRetrySimple_policy[of ?bad ?w] h2
  have "fetchWithRetrySimple ?bad ?w
          = (Inl (AllAttemptsFailed maxRetries (Some 3)),
             ?w\<lparr>calls := calls ?w + maxRetries,
               sleeps := sleeps ?w @ map (\<lambda>i. i * retryDelay) [1..<maxRetries]\<rparr>)"
    by blast
  then have r2: "fetchWithRetrySimple ?bad ?w
     = (Inl (AllAttemptsFailed 4 (Some 3)),
        \<lparr>calls = 4, sleeps = [1000000000, 2000000000, 3000000000]\<rparr>)"
    by (simp add: retryDelay_def maxRetries_def upt_rec)
  from r1 r2 show ?thesis by blast
qed

text \<open>
  C10. For the empty ASN list \<open>GetPrefixesForASNs\<close> returns a \<open>PrefixSet\<close> whose IPv4
  and IPv6 sequences are empty, with no error, and leaves the world as it was: no fetch
  is made and no delay is slept.
\<close>

theorem GetPrefixesForASNs_empty:
  "GetPrefixesForASNs net [] w = (Inr \<lparr>IPv4 = [], IPv6 = []\<rparr>, w)
   \<and> calls (snd (GetPrefixesForASNs net [] w)) = calls w
   \<and> sleeps (snd (GetPrefixesForASNs net [] w)) = sleeps w"
  by (simp add: GetPrefixesForASNs_def)

text \<open>
  C8. With a reader that delivers its lines without error, \<open>parseDelegatedFile\<close> surfaces
  no error and returns exactly one record per well-formed line, in the order of the
  lines. The source tests a line after \<^verbatim>\<open>strings.TrimSpace\<close>, and \<open>well_formed_line\<close>
  spells the tests out. Told by the line as it was read: a blank line, a line beginning
  with \<open>#\<close>, a line containing \<open>|version|\<close> or \<open>|summary|\<close>, and a line that splits on
  \<open>|\<close> into fewer than 7 fields yield no record. For lines without surrounding white
  space the lines themselves are filtered.
\<close>

theorem parseDelegatedFile_wellformed_lines:
  "parseDelegatedFile \<lparr>lines = ls, scan_err = None\<rparr>
     = Inr (map record_of_line (filter well_formed_line (map TrimSpace ls)))
   \<and> (\<forall>l. l = [] \<or> HasPrefix l ''#'' \<or> strings_Contains l ''|version|''
           \<or> strings_Contains l ''|summary|'' \<or> length (Split l (CHR ''|'')) < 7
         \<longrightarrow> \<not> well_formed_line (TrimSpace l))
   \<and> ((\<forall>l\<in>set ls. TrimSpace l = l) \<longrightarrow>
        parseDelegatedFile \<lparr>lines = ls, scan_err = None\<rparr>
          = Inr (map record_of_line (filter well_formed_line ls)))"
proof (intro conjI impI allI)
  show a: "parseDelegatedFile \<lparr>lines = ls, scan_err = None\<rparr>
     = Inr (map record_of_line (filter well_formed_line (map TrimSpace ls)))"
    by (simp add: parseDelegatedFile_def parse_loop_eq)
  assume "\<forall>l\<in>set ls. TrimSpace l = l"
  then have "map TrimSpace ls = ls" by (simp add: map_idI)
  with a show "parseDelegatedFile \<lparr>lines = ls, scan_err = None\<rparr>
          = Inr (map record_of_line (filter well_formed_line ls))" by simp
next
  fix l
  assume "l = [] \<or> HasPrefix l ''#'' \<or> strings_Contains l ''|version|''
           \<or> strings_Contains l ''|summary|'' \<or> length (Split l (CHR ''|'')) < 7"
  then show "\<not> well_formed_line (TrimSpace l)" by (rule skipped_lines)
qed

theorem parseDelegatedFile_wellformed_lines_witness:
  "TrimSpace ''# comment'' = ''# comment''
   \<and> TrimSpace ''ripencc|IR|asn|12880|1|20110101|allocated'' = ''ripencc|IR|asn|12880|1|20110101|allocated''
   \<and> HasPrefix ''# comment'' ''#''
   \<and> \<not> well_formed_line (TrimSpace ''# comment'')
   \<and> parseDelegatedFile
        \<lparr>lines = [''# comment'', '''', ''2|ripencc|version|1'', ''ripencc|*|asn|summary|7'',
                  ''ripencc|IR|asn|12880|1|20110101|allocated'', ''short|line'',
                  ''apnic|CN|asn|4608|2|19930101|allocated|extra''],
         scan_err = (None :: unit option)\<rparr>
       = Inr [\<lparr>Registry = ''ripencc'', CC = ''IR'', Type = ''asn'', Start = ''12880'', Value = ''1'',
                Date = ''20110101'', Status = ''allocated''\<rparr>,
              \<lparr>Registry = ''apnic'', CC = ''CN'', Type = ''asn'', Start = ''4608'', Value = ''2'',
                Date = ''19930101'', Status = ''allocated''\<rparr>]"
proof -
  let ?ls = "[''# comment'', '''', ''2|ripencc|version|1'', ''ripencc|*|asn|summary|7'',
                  ''ripencc|IR|asn|12880|1|20110101|allocated'', ''short|line'',
                  ''apnic|CN|asn|4608|2|19930101|allocated|extra'']"
  have h: "\<forall>l\<in>set ?ls. TrimSpace l = l" by code_simp
  have t: "TrimSpace ''# comment'' = ''# comment''"
    "TrimSpace ''ripencc|IR|asn|12880|1|20110101|allocated'' = ''ripencc|IR|asn|12880|1|20110101|allocated''"
    using h by simp_all
  have p: "HasPrefix ''# comment'' ''#''" by (simp add: HasPrefix_def)
  have e: "map record_of_line (filter well_formed_line ?ls)
       = [\<lparr>Registry = ''ripencc'', CC = ''IR'', Type = ''asn'', Start = ''12880'', Value = ''1'',
                Date = ''20110101'', Status = ''allocated''\<rparr>,
              \<lparr>Registry = ''apnic'', CC = ''CN'', Type = ''asn'', Start = ''4608'', Value = ''2'',
                Date = ''19930101'', Status = ''allocated''\<rparr>]"
    by code_simp
  note lines_spec = parseDelegatedFile_wellformed_lines[of ?ls]
  from lines_spec h
  have "parseDelegatedFile \<lparr>lines = ?ls, scan_err = (None :: unit option)\<rparr>
          = Inr (map record_of_line (filter well_formed_line ?ls))"
    by blast
  moreover from lines_spec p have "\<not> well_formed_line (TrimSpace ''# comment'')" by blast
  ultimately show ?thesis using e t p by simp
qed

text \<open>
  C7 (amended). For a country code of the registry table whose delegated file is fetched
  and parsed, \<open>FetchASNsForCountry\<close> returns an ascending-sorted list of valid public
  ASNs in which every valid ASN occurs once for each surviving record (type \<open>asn\<close>, the
  exact country code, status neither \<open>reserved\<close> nor \<open>available\<close>, numeric start and
  count) whose range \<open>[start, start + count)\<close> contains it, and no other number occurs.
  The list is not deduplicated: an ASN that two surviving records cover is listed twice,
  as the counterexample shows.
\<close>

theorem FetchASNsForCountry_sorted_valid:
  assumes "CountryToRIR countryCode = Some rir"
    and "fetchDelegatedRecords get (URL rir) = Inr records"
  shows "\<exists>asns. FetchASNsForCountry get countryCode = Inr asns
      \<and> sorted asns
      \<and> (\<forall>a. count_list asns a =
            (if isValidPublicASN a
             then length (filter (\<lambda>r. contributes countryCode r a) records) else 0))
      \<and> set asns = {a. isValidPublicASN a \<and> (\<exists>r\<in>set records. contributes countryCode r a)}"
proof -
  let ?asns = "sort (extractASNsForCountry records countryCode)"
  have f: "FetchASNsForCountry get countryCode = Inr ?asns"
    using assms by (simp add: FetchASNsForCountry_def)
  have c: "count_list ?asns a =
            (if isValidPublicASN a
             then length (filter (\<lambda>r. contributes countryCode r a) records) else 0)" for a
    by (simp add: count_list_sort extractASNsForCountry_def extract_loop_count)
  have "a \<in> set ?asns \<longleftrightarrow> isValidPublicASN a \<and> (\<exists>r\<in>set records. contributes countryCode r a)" for a
  proof -
    have "a \<in> set ?asns \<longleftrightarrow> 0 < count_list ?asns a"
      using count_list_0_iff[of ?asns a] by auto
    also have "\<dots> \<longleftrightarrow> isValidPublicASN a \<and> (\<exists>r\<in>set records. contributes countryCode r a)"
      unfolding c by (auto simp: filter_empty_conv)
    finally show ?thesis .
  qed
  then have "set ?asns = {a. isValidPublicASN a \<and> (\<exists>r\<in>set records. contributes countryCode r a)}"
    by blast
  with f c show ?thesis by auto
qed

theorem FetchASNsForCountry_sorted_valid_witness:
  "CountryToRIR ''IR'' = Some RIPE_NCC
   \<and> fetchDelegatedRecords
        (\<lambda>url. (Inr (200, \<lparr>lines = [''ripencc|IR|asn|131072|1|20110101|allocated'',
                                    ''ripencc|DE|asn|3320|1|19930901|allocated'',
                                    ''ripencc|IR|asn|64510|4|20120101|assigned''],
                           scan_err = None\<rparr>) :: unit + int \<times> unit scanner))
        (URL RIPE_NCC)
      = Inr [\<lparr>Registry = ''ripencc'', CC = ''IR'', Type = ''asn'', Start = ''131072'', Value = ''1'',
               Date = ''20110101'', Status = ''allocated''\<rparr>,
             \<lparr>Registry = ''ripencc'', CC = ''DE'', Type = ''asn'', Start = ''3320'', Value = ''1'',
               Date = ''19930901'', Status = ''allocated''\<rparr>,
             \<lparr>Registry = ''ripencc'', CC = ''IR'', Type = ''asn'', Start = ''64510'', Value = ''4'',
               Date = ''20120101'', Status = ''assigned''\<rparr>]
   \<and> FetchASNsForCountry
        (\<lambda>url. (Inr (200, \<lparr>lines = [''ripencc|IR|asn|131072|1|20110101|allocated'',
                                    ''ripencc|DE|asn|3320|1|19930901|allocated'',
                                    ''ripencc|IR|asn|64510|4|20120101|assigned''],
                           scan_err = None\<rparr>) :: unit + int \<times> unit scanner))
        ''IR''
      = Inr [64510, 64511, 131072]
   \<and> sorted [64510, 64511, 131072 :: int]"
proof -
  let ?get = "\<lambda>url::string. (Inr (200, \<lparr>lines = [''ripencc|IR|asn|131072|1|20110101|allocated'',
                                    ''ripencc|DE|asn|3320|1|19930901|allocated'',
                                    ''ripencc|IR|asn|64510|4|20120101|assigned''],
                           scan_err = None\<rparr>) :: unit + int \<times> unit scanner)"
  let ?records = "[\<lparr>Registry = ''ripencc'', CC = ''IR'', Type = ''asn'', Start = ''131072'', Value = ''1'',
               Date = ''20110101'', Status = ''allocated''\<rparr>,
             \<lparr>Registry = ''ripencc'', CC = ''DE'', Type = ''asn'', Start = ''3320'', Value = ''1'',
               Date = ''19930901'', Status = ''allocated''\<rparr>,
             \<lparr>Registry = ''ripencc'', CC = ''IR'', Type = ''asn'', Start = ''64510'', Value = ''4'',
               Date = ''20120101'', Status = ''assigned''\<rparr>]"
  have h1: "CountryToRIR ''IR'' = Some RIPE_NCC" by (simp add: CountryToRIR_def)
  have h2: "fetchDelegatedRecords ?get (URL RIPE_NCC) = Inr ?records" by code_simp
  have x: "extractASNsForCountry ?records ''IR'' = [131072, 64510, 64511]"
    by (simp add: extractASNsForCountry_def Atoi_def is_digit_def digits_value_def
          range_loop.simps add_int64_def isValidPublicASN_def)
  have e: "FetchASNsForCountry ?get ''IR'' = Inr [64510, 64511, 131072]"
    by (simp add: FetchASNsForCountry_def h1 h2 x)
  from FetchASNsForCountry_sorted_valid[OF h1 h2] obtain asns where
    "FetchASNsForCountry ?get ''IR'' = Inr asns" "sorted asns" by blast
  with e have "sorted [64510, 64511, 131072 :: int]" by simp
  with h1 h2 e show ?thesis by blast
qed

theorem FetchASNsForCountry_duplicates_counterexample:
  "FetchASNsForCountry
      (\<lambda>url. (Inr (200, \<lparr>lines = [''ripencc|IR|asn|12880|1|20110101|allocated'',
                                  ''ripencc|IR|asn|12880|2|20120101|assigned''],
                         scan_err = None\<rparr>) :: unit + int \<times> unit scanner))
      ''IR''
     = Inr [12880, 12880, 12881]
   \<and> \<not> distinct [12880, 12880, 12881 :: int]"
proof -
  let ?get = "\<lambda>url::string. (Inr (200, \<lparr>lines = [''ripencc|IR|asn|12880|1|20110101|allocated'',
                                  ''ripencc|IR|asn|12880|2|20120101|assigned''],
                         scan_err = None\<rparr>) :: unit + int \<times> unit scanner)"
  let ?records = "[\<lparr>Registry = ''ripencc'', CC = ''IR'', Type = ''asn'', Start = ''12880'', Value = ''1'',
               Date = ''20110101'', Status = ''allocated''\<rparr>,
             \<lparr>Registry = ''ripencc'', CC = ''IR'', Type = ''asn'', Start = ''12880'', Value = ''2'',
               Date = ''20120101'', Status = ''assigned''\<rparr>]"
  have h1: "CountryToRIR ''IR'' = Some RIPE_NCC" by (simp add: CountryToRIR_def)
  have h2: "fetchDelegatedRecords ?get (URL RIPE_NCC) = Inr ?records" by code_simp
  have x: "extractASNsForCountry ?records ''IR'' = [12880, 12880, 12881]"
    by (simp add: extractASNsForCountry_def Atoi_def is_digit_def digits_value_def
          range_loop.simps add_int64_def isValidPublicASN_def)
  have "FetchASNsForCountry ?get ''IR'' = Inr [12880, 12880, 12881]"
    by (simp add: FetchASNsForCountry_def h1 h2 x)
  then show ?thesis by simp
qed

end
